theory Spec2Isabelle
  imports Main "HOL-Library.Word" "HOL-Library.Multiset" "HOL-Library.Code_Target_Nat"
begin

section \<open>Basic types of the search core\<close>

text \<open>
  \<open>strings::UniChar\<close> is a 32-bit code point and \<open>strings::UniString\<close> a vector of
  them; \<open>std::string\<close> (UTF-8 bytes) is a \<open>string\<close>. Feature offsets are
  \<open>uint32_t\<close>, language codes are \<open>int8_t\<close> and ranks are \<open>uint8_t\<close>.
\<close>

type_synonym UniChar = "32 word"
type_synonym UniString = "UniChar list"

datatype error = CancelException | NullDereference | OutOfRange

text \<open>
  The type of a tile, as its header gives it (\<open>feature::DataHeader::GetType\<close>): the
  source tests for \<open>world\<close> and for \<open>country\<close>; \<open>other_type\<close> stands for any
  other value of the enumeration.
\<close>

datatype MapType = world | country | other_type

section \<open>FeaturesFilter (search_query.cpp, 593-612)\<close>

text \<open>
  \<open>std::lower_bound\<close> and \<open>std::binary_search\<close> over a vector, by halving the
  range \<open>[first, first + count)\<close>.
\<close>

function lower_bound :: "'a::linorder list \<Rightarrow> 'a \<Rightarrow> nat \<Rightarrow> nat \<Rightarrow> nat" where
  "lower_bound xs v first cnt =
     (if cnt = 0 then first
      else let step = cnt div 2; it = first + step
           in if xs ! it < v then lower_bound xs v (it + 1) (cnt - (step + 1))
              else lower_bound xs v first step)"
  by pat_completeness auto
termination
  by (relation "measure (\<lambda>(xs, v, first, cnt). cnt)") auto

declare lower_bound.simps [simp del]

definition binary_search :: "'a::linorder list \<Rightarrow> 'a \<Rightarrow> bool" where
  "binary_search xs v =
     (let i = lower_bound xs v 0 (length xs) in i \<noteq> length xs \<and> \<not> v < xs ! i)"

text \<open>
  \<open>FeaturesFilter::operator()\<close>. The filter holds references to the tile's cache
  entry \<open>m_offsets\<close> and to the cancel flag; \<open>isCancel\<close> is the value the flag has
  when the call reads it. The throw is the \<open>Inl\<close> branch.
\<close>

definition FeaturesFilter :: "32 word list \<Rightarrow> bool \<Rightarrow> bool \<Rightarrow> 32 word \<Rightarrow> error + bool" where
  "FeaturesFilter m_offsets m_alwaysTrue m_isCancel offset =
     (if m_isCancel then Inl CancelException
      else Inr (m_alwaysTrue \<or> binary_search m_offsets offset))"

section \<open>BestNameFinder and GetBestMatchName (search_query.cpp, 488-526)\<close>

text \<open>
  The finder writes through two references, \<open>m_penalty\<close> and \<open>m_name\<close>; the pair
  is the state here. The constructor sets the penalty to \<open>uint32_t(-1)\<close> (whatever
  the caller's variable held) and leaves the name as the caller passed it.
\<close>

type_synonym KeywordsScore = "8 word \<Rightarrow> string \<Rightarrow> 32 word"

definition BestNameFinder_ctor :: "string \<Rightarrow> 32 word \<times> string" where
  "BestNameFinder_ctor name = (- 1, name)"

definition BestNameFinder_call ::
  "KeywordsScore \<Rightarrow> 32 word \<times> string \<Rightarrow> 8 word \<times> string \<Rightarrow> (32 word \<times> string) \<times> bool" where
  "BestNameFinder_call score pn ln =
     (let penalty = score (fst ln) (snd ln)
      in if penalty < fst pn then ((penalty, snd ln), True) else (pn, True))"

text \<open>
  Modelled from the spec: \<open>FeatureType::ForEachNameRef\<close>, which is declared outside
  search_query.cpp. The spec has the promoter "iterate all name variants of the feature";
  the functor's \<open>false\<close> stops the iteration, and the result says whether it ran to
  the end.
\<close>

fun ForEachNameRef ::
  "('s \<Rightarrow> 8 word \<times> string \<Rightarrow> 's \<times> bool) \<Rightarrow> (8 word \<times> string) list \<Rightarrow> 's \<Rightarrow> 's \<times> bool" where
  "ForEachNameRef fn [] s = (s, True)"
| "ForEachNameRef fn (ln # rest) s =
     (case fn s ln of
        (s', True) \<Rightarrow> ForEachNameRef fn rest s'
      | (s', False) \<Rightarrow> (s', False))"

text \<open>
  \<open>Query::GetBestMatchName(f, penalty, name)\<close>: \<open>names\<close> are the names of the
  feature \<open>f\<close>, \<open>name\<close> is the caller's string as passed in; the result is the
  value of the two reference arguments on return.
\<close>

definition GetBestMatchName ::
  "KeywordsScore \<Rightarrow> (8 word \<times> string) list \<Rightarrow> string \<Rightarrow> 32 word \<times> string" where
  "GetBestMatchName score names name =
     fst (ForEachNameRef (BestNameFinder_call score) names (BestNameFinder_ctor name))"

section \<open>Data of the query\<close>

text \<open>
  Doubles are an abstract type \<open>'d\<close> (a point \<open>m2::PointD\<close> is a pair of them), a
  rectangle \<open>m2::RectD\<close> is an abstract type \<open>'r\<close> and a loaded feature
  (\<open>FeatureType\<close>) an abstract type \<open>'f\<close>: the controller only passes them on.
  \<open>TrieValueT\<close> is the value the trie stores for a feature.
\<close>

record 'd TrieValueT =
  m_featureId :: "32 word"
  m_rank :: "8 word"
  m_pt :: "'d \<times> 'd"

text \<open>
  \<open>impl::PreResult1\<close>, by the arguments of its constructor
  \<open>PreResult1(featureId, rank, pt, mwmID, position, viewport)\<close>; \<open>GetID\<close> is the
  pair \<open>(feature offset, mwm id)\<close>.
\<close>

record ('d, 'r) PreResult1 =
  r1_featureId :: "32 word"
  r1_rank :: "8 word"
  r1_pt :: "'d \<times> 'd"
  r1_mwmID :: nat
  r1_position :: "'d \<times> 'd"
  r1_viewport :: 'r

definition GetID :: "('d, 'r) PreResult1 \<Rightarrow> 32 word \<times> nat" where
  "GetID r = (r1_featureId r, r1_mwmID r)"

text \<open>
  \<open>impl::PreResult2\<close>, by its three constructors: the lat/lon result
  \<open>(viewport, position, lat, lon)\<close>, the promoted feature
  \<open>(feature, PreResult1, name, countryName)\<close> and the suggestion
  \<open>(string, minimal length)\<close>. The result sink \<open>Results\<close> is the list of the values
  on which \<open>GenerateFinalResult\<close> was called, in the order of \<open>AddResult\<close>.
\<close>

datatype ('d, 'r, 'f) PreResult2 =
    LatLonResult 'r "'d \<times> 'd" 'd 'd
  | FeatureResult 'f "('d, 'r) PreResult1" string string
  | SuggestResult string "8 word"

fun is_FeatureResult :: "('d, 'r, 'f) PreResult2 \<Rightarrow> bool" where
  "is_FeatureResult (FeatureResult f r name countryName) = True"
| "is_FeatureResult other = False"

text \<open>
  A tile (mwm) of the index. \<open>MwmValue\<close> is what a lock gives when the tile can be
  read: the header, the geometry index (\<open>ForEachInIntervalAndScale\<close> feeds the offsets
  it finds to its functor, in this order), the search trie (the labels of the root's
  edges, each with at least one byte as the source asserts, so a label is its first
  byte and the rest) and the features by offset.
  \<open>trie_reached tokens prefix i c\<close> is the sequence of values the trie matcher reaches
  below the language edge \<open>i\<close>, with the categories edge \<open>c\<close>.
\<close>

record ('d, 'f) MwmValue =
  header_GetType :: MapType
  header_GetScaleRange :: "int \<times> int"
  header_GetLastScale :: int
  ForEachInIntervalAndScale :: "int \<Rightarrow> int \<Rightarrow> int \<Rightarrow> 32 word list"
  IsReaderExist_SEARCH_INDEX :: bool
  trie_m_edge :: "(8 word \<times> 8 word list) list"
  trie_reached :: "UniString list list \<Rightarrow> UniString \<Rightarrow> nat \<Rightarrow> nat \<Rightarrow> 'd TrieValueT list"
  features_Get :: "32 word \<Rightarrow> 'f"

record ('d, 'r, 'f) Mwm =
  m_limitRect :: 'r
  lock_GetValue :: "('d, 'f) MwmValue option"
  lock_GetCountryName :: string

text \<open>
  Modelled from the spec: \<open>my::limited_priority_queue\<close>
  (base/limited_priority_queue.hpp), the type \<open>QueueT\<close> of the candidate queues, which
  is defined outside search_query.cpp. The spec says "Each queue has capacity
  \<open>2 \<times> resultsNeeded\<close>" and "Overflow displaces the current worst under that queue's
  ordering": a push into a queue that is not full adds the element; a push into a full
  queue replaces the top (a greatest element under the comparator) when the new element
  compares below it, and is dropped otherwise; a queue of capacity 0 stays empty. The
  contents are kept in the order of arrival (the heap layout is not modelled).
\<close>

record 'a QueueT =
  m_queue :: "'a list"
  m_maxSize :: nat
  m_compare :: "'a \<Rightarrow> 'a \<Rightarrow> bool"

definition QueueT_ctor :: "nat \<Rightarrow> ('a \<Rightarrow> 'a \<Rightarrow> bool) \<Rightarrow> 'a QueueT" where
  "QueueT_ctor maxSize compare = \<lparr>m_queue = [], m_maxSize = maxSize, m_compare = compare\<rparr>"

definition queue_top :: "('a \<Rightarrow> 'a \<Rightarrow> bool) \<Rightarrow> 'a \<Rightarrow> 'a list \<Rightarrow> 'a" where
  "queue_top compare x xs = foldl (\<lambda>m y. if compare m y then y else m) x xs"

definition queue_push :: "'a QueueT \<Rightarrow> 'a \<Rightarrow> 'a QueueT" where
  "queue_push q t =
     (if m_maxSize q = 0 then q
      else if length (m_queue q) < m_maxSize q then q\<lparr>m_queue := m_queue q @ [t]\<rparr>
      else (case m_queue q of
              [] \<Rightarrow> q
            | x # xs \<Rightarrow>
                (let top = queue_top (m_compare q) x xs
                 in if m_compare q t top
                    then q\<lparr>m_queue := remove1 top (m_queue q) @ [t]\<rparr>
                    else q)))"

definition queue_clear :: "'a QueueT \<Rightarrow> 'a QueueT" where
  "queue_clear q = q\<lparr>m_queue := []\<rparr>"

text \<open>
  The \<open>Query\<close> object. \<open>m_pIndex\<close>, \<open>m_pCategories\<close> and
  \<open>m_pStringsToSuggest\<close> are pointers (\<open>None\<close> is the null pointer); the categories are
  a multimap from token to feature type, the suggestions a vector of pairs (string,
  minimal length). \<open>m_pInfoGetter\<close> is only handed to \<open>GenerateFinalResult\<close> and is
  left out. \<open>polls\<close> is not a member: it counts the reads of the volatile cancel flag
  made so far, so that \<open>cancelRequested\<close> below can say when another thread sets it.
\<close>

record ('d, 'r, 'f) Query =
  m_pIndex :: "('d, 'r, 'f) Mwm list option"
  m_pCategories :: "(UniString \<times> 32 word) list option"
  m_pStringsToSuggest :: "(UniString \<times> 8 word) list option"
  m_preferredLanguage :: "8 word"
  m_viewport :: 'r
  m_viewportExtended :: 'r
  m_position :: "'d \<times> 'd"
  m_bOffsetsCacheIsValid :: bool
  m_offsetsInViewport :: "32 word list list"
  m_cancel :: bool
  m_rawQuery :: string
  m_uniQuery :: UniString
  m_tokens :: "UniString list"
  m_prefix :: UniString
  m_pKeywordsScorer :: KeywordsScore
  m_results :: "('d, 'r) PreResult1 QueueT list"
  polls :: nat

text \<open>
  \<open>IndexedValue\<close> (234-281): a promoted result with its array of \<open>m_qCount\<close> rank
  positions. \<open>size_t\<close> is a natural number here: the positions stay below the length
  of the vector, and the constructor's \<open>numeric_limits<size_t>::max()\<close> is
  \<open>2^64 - 1\<close>.
\<close>

record 'a IndexedValue =
  m_ind :: "nat list"
  m_val :: 'a

definition m_qCount :: nat where
  "m_qCount = 3"

definition IndexedValue_ctor :: "'a \<Rightarrow> 'a IndexedValue" where
  "IndexedValue_ctor v = \<lparr>m_ind = replicate m_qCount (2 ^ 64 - 1), m_val = v\<rparr>"

definition SetIndex :: "nat \<Rightarrow> nat \<Rightarrow> 'a IndexedValue \<Rightarrow> 'a IndexedValue" where
  "SetIndex i v x = x\<lparr>m_ind := (m_ind x)[i := v]\<rparr>"

definition SortIndex :: "'a IndexedValue \<Rightarrow> 'a IndexedValue" where
  "SortIndex x = x\<lparr>m_ind := sort (m_ind x)\<rparr>"

fun less_ind :: "nat list \<Rightarrow> nat list \<Rightarrow> bool" where
  "less_ind (x # xs) (y # ys) = (if x \<noteq> y then x < y else less_ind xs ys)"
| "less_ind xs ys = False"

definition IndexedValue_less :: "'a IndexedValue \<Rightarrow> 'a IndexedValue \<Rightarrow> bool" where
  "IndexedValue_less l r = less_ind (m_ind l) (m_ind r)"

text \<open>
  The collaborators that are defined outside search_query.cpp, as parameters: string
  normalisation and delimiters, the language table, the keyword scorer (built from the
  language priorities, the tokens and the prefix), the lat/lon parser, the geometry of
  rectangles, the covering of the viewport, the constant \<open>CATEGORIES_LANG\<close>, the
  comparators \<open>g_arrCompare1\<close> and \<open>g_arrCompare2\<close> by index, the three functors of
  \<open>PreResult2\<close>, the names of a feature, and \<open>std::sort\<close> on a vector of
  \<open>IndexedValue\<close> (the order it gives to equivalent elements is not specified).
  \<open>cancelRequested n\<close> says that another thread has set the cancel flag before the
  read number \<open>n\<close> of the flag and after the read before it, or after the reset at
  the beginning of \<open>Search\<close> for the first read of a call.
\<close>

record ('d, 'r, 'f) env =
  NormalizeAndSimplifyString :: "string \<Rightarrow> UniString"
  delims :: "UniChar \<Rightarrow> bool"
  LastUniChar :: "string \<Rightarrow> UniChar"
  GetLangIndex :: "string \<Rightarrow> 8 word"
  LangKeywordsScorer :: "8 word list list \<Rightarrow> UniString list \<Rightarrow> UniString \<Rightarrow> KeywordsScore"
  MatchLatLon :: "string \<Rightarrow> ('d \<times> 'd \<times> 'd \<times> 'd) option"
  rect_Scale :: "'r \<Rightarrow> nat \<Rightarrow> 'r"
  IsIntersect :: "'r \<Rightarrow> 'r \<Rightarrow> bool"
  GetScaleLevel :: "'r \<Rightarrow> int"
  CoveringGetter_Get :: "'r \<Rightarrow> int \<Rightarrow> (int \<times> int) list"
  FeatureTypeToString :: "32 word \<Rightarrow> UniString"
  ToUtf8 :: "UniString \<Rightarrow> string"
  CATEGORIES_LANG :: "8 word"
  g_arrCompare1 :: "nat \<Rightarrow> ('d, 'r) PreResult1 \<Rightarrow> ('d, 'r) PreResult1 \<Rightarrow> bool"
  g_arrCompare2 :: "nat \<Rightarrow> ('d, 'r, 'f) PreResult2 \<Rightarrow> ('d, 'r, 'f) PreResult2 \<Rightarrow> bool"
  StrictEqualF :: "('d, 'r, 'f) PreResult2 \<Rightarrow> ('d, 'r, 'f) PreResult2 \<Rightarrow> bool"
  LessLinearTypesF :: "('d, 'r, 'f) PreResult2 \<Rightarrow> ('d, 'r, 'f) PreResult2 \<Rightarrow> bool"
  EqualLinearTypesF :: "('d, 'r, 'f) PreResult2 \<Rightarrow> ('d, 'r, 'f) PreResult2 \<Rightarrow> bool"
  ForEachNameRef_names :: "'f \<Rightarrow> (8 word \<times> string) list"
  std_sort :: "(('d, 'r, 'f) PreResult2 IndexedValue \<Rightarrow> ('d, 'r, 'f) PreResult2 IndexedValue \<Rightarrow> bool)
                 \<Rightarrow> ('d, 'r, 'f) PreResult2 IndexedValue list
                 \<Rightarrow> ('d, 'r, 'f) PreResult2 IndexedValue list"
  cancelRequested :: "nat \<Rightarrow> bool"

text \<open>
  A read of \<open>m_cancel\<close>: the flag is set if it was set already or another thread has
  set it since the last read; it stays set until \<open>Search\<close> resets it.
\<close>

definition read_cancel ::
  "('d, 'r, 'f) env \<Rightarrow> ('d, 'r, 'f) Query \<Rightarrow> bool \<times> ('d, 'r, 'f) Query" where
  "read_cancel e q =
     (let c = (m_cancel q \<or> cancelRequested e (polls q))
      in (c, q\<lparr>m_cancel := c, polls := polls q + 1\<rparr>))"

section \<open>The viewport offset cache (search_query.cpp, 48-127)\<close>

text \<open>
  One round of the loop of \<open>UpdateViewportOffsets\<close> over the tiles: the offsets of
  every interval of the covering are appended to the tile's entry, which is then sorted
  (by \<open>std::sort\<close> on \<open>uint32_t\<close>, a total order: the result is the sorted list).
\<close>

definition UpdateViewportOffsets_tile ::
  "('d, 'r, 'f) env \<Rightarrow> ('d, 'r, 'f) Mwm list \<Rightarrow> int \<Rightarrow> ('d, 'r, 'f) Query \<Rightarrow> nat
     \<Rightarrow> ('d, 'r, 'f) Query" where
  "UpdateViewportOffsets_tile e mwmInfo viewScale q mwmId =
     (if IsIntersect e (m_viewportExtended q) (m_limitRect (mwmInfo ! mwmId)) then
        (case lock_GetValue (mwmInfo ! mwmId) of
           None \<Rightarrow> q
         | Some pMwm \<Rightarrow>
             if header_GetType pMwm = country then
               (let scaleR = header_GetScaleRange pMwm;
                    scale = min (max (viewScale + 7) (fst scaleR)) (snd scaleR);
                    interval = CoveringGetter_Get e (m_viewport q) (header_GetLastScale pMwm);
                    filled = foldl (\<lambda>v i. v @ ForEachInIntervalAndScale pMwm (fst i) (snd i) scale)
                               (m_offsetsInViewport q ! mwmId) interval
                in q\<lparr>m_offsetsInViewport := (m_offsetsInViewport q)[mwmId := sort filled]\<rparr>)
             else q)
      else q)"

text \<open>
  \<open>UpdateViewportOffsets\<close>: the cache is cleared before \<open>m_pIndex\<close> is
  dereferenced, then resized to one empty entry for each tile.
\<close>

definition UpdateViewportOffsets ::
  "('d, 'r, 'f) env \<Rightarrow> ('d, 'r, 'f) Query \<Rightarrow> error option \<times> ('d, 'r, 'f) Query" where
  "UpdateViewportOffsets e q =
     (let q0 = q\<lparr>m_offsetsInViewport := []\<rparr>
      in case m_pIndex q0 of
           None \<Rightarrow> (Some NullDereference, q0)
         | Some mwmInfo \<Rightarrow>
             (let q1 = q0\<lparr>m_offsetsInViewport := replicate (length mwmInfo) []\<rparr>;
                  viewScale = GetScaleLevel e (m_viewport q1);
                  q2 = foldl (UpdateViewportOffsets_tile e mwmInfo viewScale) q1
                         [0..<length mwmInfo]
              in (None, q2\<lparr>m_bOffsetsCacheIsValid := True\<rparr>)))"

definition SetViewport ::
  "('d, 'r, 'f) env \<Rightarrow> ('d, 'r, 'f) Query \<Rightarrow> 'r \<Rightarrow> error option \<times> ('d, 'r, 'f) Query" where
  "SetViewport e q viewport =
     (if m_viewport q \<noteq> viewport \<or> \<not> m_bOffsetsCacheIsValid q then
        UpdateViewportOffsets e
          (q\<lparr>m_viewport := viewport, m_viewportExtended := rect_Scale e viewport 3\<rparr>)
      else (None, q))"

definition ClearCache :: "('d, 'r, 'f) Query \<Rightarrow> ('d, 'r, 'f) Query" where
  "ClearCache q = q\<lparr>m_offsetsInViewport := [], m_bOffsetsCacheIsValid := False\<rparr>"

section \<open>The beginning of Search (search_query.cpp, 151-187)\<close>

text \<open>
  Modelled from the spec: \<open>SplitUniString\<close> (indexer/search_string_utils.hpp), which
  is defined outside search_query.cpp. The spec says "Split on a fixed delimiter
  predicate", a token being "a folded unicode string, delimiter-free": the tokens are
  the maximal runs of code points that are not delimiters, in order, so no token is
  empty.
\<close>

fun split_tokens :: "(UniChar \<Rightarrow> bool) \<Rightarrow> UniString \<Rightarrow> UniString \<Rightarrow> UniString list" where
  "split_tokens isDelim cur [] = (if cur = [] then [] else [cur])"
| "split_tokens isDelim cur (c # cs) =
     (if isDelim c then (if cur = [] then split_tokens isDelim [] cs
                         else cur # split_tokens isDelim [] cs)
      else split_tokens isDelim (cur @ [c]) cs)"

definition SplitUniString :: "UniString \<Rightarrow> (UniChar \<Rightarrow> bool) \<Rightarrow> UniString list" where
  "SplitUniString uniS isDelim = split_tokens isDelim [] uniS"

text \<open>
  The block "Initialize" of \<open>Search\<close>. \<open>m_prefix.swap(m_tokens.back())\<close> on the
  cleared prefix followed by \<open>pop_back\<close> moves the last token into the prefix. The
  capacity of a queue is computed in \<open>unsigned int\<close>: \<open>2 * resultsNeeded\<close> wraps.
\<close>

definition Search_Initialize ::
  "('d, 'r, 'f) env \<Rightarrow> string \<Rightarrow> 32 word \<Rightarrow> ('d, 'r, 'f) Query \<Rightarrow> ('d, 'r, 'f) Query" where
  "Search_Initialize e query resultsNeeded q =
     (let q1 = q\<lparr>m_cancel := False, m_rawQuery := query,
                 m_uniQuery := NormalizeAndSimplifyString e query,
                 m_tokens := [], m_prefix := []\<rparr>;
          q2 = q1\<lparr>m_tokens := m_tokens q1 @ SplitUniString (m_uniQuery q1) (delims e)\<rparr>;
          q3 = (if m_tokens q2 \<noteq> [] \<and> \<not> delims e (LastUniChar e (m_rawQuery q2))
                then q2\<lparr>m_prefix := last (m_tokens q2), m_tokens := butlast (m_tokens q2)\<rparr>
                else q2);
          q4 = (if length (m_tokens q3) > 31 then q3\<lparr>m_tokens := take 31 (m_tokens q3)\<rparr>
                else q3);
          langPriorities = [[m_preferredLanguage q4],
                            [GetLangIndex e ''int_name'', GetLangIndex e ''en''],
                            [GetLangIndex e ''default'']];
          q5 = q4\<lparr>m_pKeywordsScorer :=
                    LangKeywordsScorer e langPriorities (m_tokens q4) (m_prefix q4)\<rparr>
      in q5\<lparr>m_results :=
              map (\<lambda>i. QueueT_ctor (unat (2 * resultsNeeded)) (g_arrCompare1 e i))
                [0..<m_qCount]\<rparr>)"

section \<open>The suggester (search_query.cpp, 689-723)\<close>

text \<open>
  Modelled from the spec: \<open>StartsWith\<close> (search_common.hpp), which is defined outside
  search_query.cpp. The spec says "the candidate starts with the target", as in its
  scenario where the query \<open>caf\<close> brings the entry \<open>cafe\<close>:
  \<open>StartsWith(s.begin(), s.end(), t.begin(), t.end())\<close> holds when \<open>s\<close> begins
  with \<open>t\<close>.
\<close>

fun StartsWith :: "'a list \<Rightarrow> 'a list \<Rightarrow> bool" where
  "StartsWith s [] = True"
| "StartsWith [] (c # t) = False"
| "StartsWith (b # s) (c # t) = (b = c \<and> StartsWith s t)"

text \<open>
  \<open>MatchForSuggestions\<close> and \<open>SuggestStrings\<close>; the result is the list of the
  results added to the sink, in order.
\<close>

fun MatchForSuggestions ::
  "('d, 'r, 'f) env \<Rightarrow> (UniString \<times> 8 word) list \<Rightarrow> UniString \<Rightarrow> ('d, 'r, 'f) PreResult2 list" where
  "MatchForSuggestions e [] token = []"
| "MatchForSuggestions e (it # rest) token =
     (let s = fst it
      in if unat (snd it) \<le> length token \<and> StartsWith s token
         then SuggestResult (ToUtf8 e s) (snd it) # MatchForSuggestions e rest token
         else MatchForSuggestions e rest token)"

definition SuggestStrings ::
  "('d, 'r, 'f) env \<Rightarrow> ('d, 'r, 'f) Query \<Rightarrow> ('d, 'r, 'f) PreResult2 list" where
  "SuggestStrings e q =
     (case m_pStringsToSuggest q of
        None \<Rightarrow> []
      | Some strings \<Rightarrow>
          if length (m_tokens q) = 0 \<and> m_prefix q \<noteq> [] then
            MatchForSuggestions e strings (m_prefix q)
          else if length (m_tokens q) = 1 then
            (let tokenAndPrefix = m_tokens q ! 0;
                 tokenAndPrefix = (if m_prefix q \<noteq> [] then (tokenAndPrefix @ [32]) @ m_prefix q
                                   else tokenAndPrefix)
             in MatchForSuggestions e strings tokenAndPrefix)
          else [])"

section \<open>Feature matching (search_query.cpp, 457-483, 528-687)\<close>

text \<open>
  \<open>AddResultFromTrie\<close>: \<open>m_results\<close> is an array of \<open>m_qCount\<close> queues, and the
  loop visits each of them; \<open>EqualFeature\<close> compares by \<open>GetID\<close>.
\<close>

definition EqualFeature :: "('d, 'r) PreResult1 \<Rightarrow> ('d, 'r) PreResult1 \<Rightarrow> bool" where
  "EqualFeature m_val' r = (GetID m_val' = GetID r)"

definition AddResultFromTrie ::
  "('d, 'r, 'f) Query \<Rightarrow> 'd TrieValueT \<Rightarrow> nat \<Rightarrow> ('d, 'r, 'f) Query" where
  "AddResultFromTrie q val mwmID =
     (let res = \<lparr>r1_featureId = m_featureId val, r1_rank = m_rank val, r1_pt = m_pt val,
                 r1_mwmID = mwmID, r1_position = m_position q, r1_viewport = m_viewport q\<rparr>
      in q\<lparr>m_results :=
             map (\<lambda>qu. if find (EqualFeature res) (m_queue qu) = None then queue_push qu res
                        else qu)
               (m_results q)\<rparr>)"

text \<open>
  Modelled from the spec: \<open>MatchFeaturesInTrie\<close> (feature_offset_match.hpp), which is
  defined outside search_query.cpp. The spec says "For every feature offset reached,
  pass it through the tile's FeaturesFilter" and "On admission, emit a TrieHit via the
  Candidate Store". The values reached are given (\<open>trie_reached\<close>); each call of the
  filter reads the cancel flag, and its exception leaves the matcher. The emitter is
  \<open>impl::FeatureLoader\<close>, whose counter is only logged.
\<close>

fun MatchFeaturesInTrie ::
  "('d, 'r, 'f) env \<Rightarrow> 32 word list \<Rightarrow> bool \<Rightarrow> nat \<Rightarrow> 'd TrieValueT list \<Rightarrow> ('d, 'r, 'f) Query
     \<Rightarrow> error option \<times> ('d, 'r, 'f) Query" where
  "MatchFeaturesInTrie e offsets alwaysTrue mwmID [] q = (None, q)"
| "MatchFeaturesInTrie e offsets alwaysTrue mwmID (value # rest) q =
     (case read_cancel e q of
        (isCancel, q1) \<Rightarrow>
          (case FeaturesFilter offsets alwaysTrue isCancel (m_featureId value) of
             Inl err \<Rightarrow> (Some err, q1)
           | Inr admitted \<Rightarrow>
               MatchFeaturesInTrie e offsets alwaysTrue mwmID rest
                 (if admitted then AddResultFromTrie q1 value mwmID else q1)))"

fun find_edge :: "8 word \<Rightarrow> (8 word \<times> 8 word list) list \<Rightarrow> nat \<Rightarrow> nat option" where
  "find_edge lang [] i = None"
| "find_edge lang (edge # rest) i = (if fst edge = lang then Some i else find_edge lang rest (i + 1))"

text \<open>
  The loop over the language edges of a tile's trie root (662-682). The categories root
  is dereferenced, and the reference to the tile's cache entry is formed, when a
  language edge is matched: a missing categories edge and a cache with no entry for the
  tile are errors there.
\<close>

fun SearchFeatures_langs ::
  "('d, 'r, 'f) env \<Rightarrow> UniString list list \<Rightarrow> 8 word list \<Rightarrow> nat \<Rightarrow> ('d, 'f) MwmValue
     \<Rightarrow> nat option \<Rightarrow> bool \<Rightarrow> nat list \<Rightarrow> ('d, 'r, 'f) Query
     \<Rightarrow> error option \<times> ('d, 'r, 'f) Query" where
  "SearchFeatures_langs e tokens langs mwmId pMwm pCategoriesRoot isWorld [] q = (None, q)"
| "SearchFeatures_langs e tokens langs mwmId pMwm pCategoriesRoot isWorld (i # rest) q =
     (let edge = trie_m_edge pMwm ! i
      in if fst edge < CATEGORIES_LANG e \<and> fst edge \<in> set langs then
           (case pCategoriesRoot of
              None \<Rightarrow> (Some NullDereference, q)
            | Some c \<Rightarrow>
                if mwmId < length (m_offsetsInViewport q) then
                  (case MatchFeaturesInTrie e (m_offsetsInViewport q ! mwmId) isWorld mwmId
                          (trie_reached pMwm tokens (m_prefix q) i c) q of
                     (Some err, q') \<Rightarrow> (Some err, q')
                   | (None, q') \<Rightarrow>
                       SearchFeatures_langs e tokens langs mwmId pMwm pCategoriesRoot isWorld
                         rest q')
                else (Some OutOfRange, q))
         else SearchFeatures_langs e tokens langs mwmId pMwm pCategoriesRoot isWorld rest q)"

definition SearchFeatures_tile ::
  "('d, 'r, 'f) env \<Rightarrow> UniString list list \<Rightarrow> 8 word list \<Rightarrow> nat \<Rightarrow> ('d, 'f) MwmValue
     \<Rightarrow> ('d, 'r, 'f) Query \<Rightarrow> error option \<times> ('d, 'r, 'f) Query" where
  "SearchFeatures_tile e tokens langs mwmId pMwm q =
     (let count = length (trie_m_edge pMwm);
          pCategoriesRoot = find_edge (CATEGORIES_LANG e) (trie_m_edge pMwm) 0;
          isWorld = (header_GetType pMwm = world)
      in SearchFeatures_langs e tokens langs mwmId pMwm pCategoriesRoot isWorld [0..<count] q)"

text \<open>The loop of \<open>SearchFeatures(tokens, mwmInfo, langs, onlyInViewport)\<close> over the tiles.\<close>

fun SearchFeatures_tiles ::
  "('d, 'r, 'f) env \<Rightarrow> UniString list list \<Rightarrow> ('d, 'r, 'f) Mwm list \<Rightarrow> 8 word list \<Rightarrow> bool
     \<Rightarrow> nat list \<Rightarrow> ('d, 'r, 'f) Query \<Rightarrow> error option \<times> ('d, 'r, 'f) Query" where
  "SearchFeatures_tiles e tokens mwmInfo langs onlyInViewport [] q = (None, q)"
| "SearchFeatures_tiles e tokens mwmInfo langs onlyInViewport (mwmId # rest) q =
     (if \<not> onlyInViewport
         \<or> IsIntersect e (m_viewportExtended q) (m_limitRect (mwmInfo ! mwmId)) then
        (case lock_GetValue (mwmInfo ! mwmId) of
           None \<Rightarrow> SearchFeatures_tiles e tokens mwmInfo langs onlyInViewport rest q
         | Some pMwm \<Rightarrow>
             if IsReaderExist_SEARCH_INDEX pMwm then
               (case SearchFeatures_tile e tokens langs mwmId pMwm q of
                  (Some err, q') \<Rightarrow> (Some err, q')
                | (None, q') \<Rightarrow>
                    SearchFeatures_tiles e tokens mwmInfo langs onlyInViewport rest q')
             else SearchFeatures_tiles e tokens mwmInfo langs onlyInViewport rest q)
      else SearchFeatures_tiles e tokens mwmInfo langs onlyInViewport rest q)"

definition SearchFeatures4 ::
  "('d, 'r, 'f) env \<Rightarrow> UniString list list \<Rightarrow> ('d, 'r, 'f) Mwm list \<Rightarrow> 8 word list \<Rightarrow> bool
     \<Rightarrow> ('d, 'r, 'f) Query \<Rightarrow> error option \<times> ('d, 'r, 'f) Query" where
  "SearchFeatures4 e tokens mwmInfo langs onlyInViewport q =
     SearchFeatures_tiles e tokens mwmInfo langs onlyInViewport [0..<length mwmInfo] q"

text \<open>
  \<open>SearchFeatures()\<close>: the tokens with the names of their categories, and the set
  of languages (a list here, read by membership only).
\<close>

definition SearchFeatures ::
  "('d, 'r, 'f) env \<Rightarrow> ('d, 'r, 'f) Query \<Rightarrow> error option \<times> ('d, 'r, 'f) Query" where
  "SearchFeatures e q =
     (case m_pIndex q of
        None \<Rightarrow> (None, q)
      | Some mwmInfo \<Rightarrow>
          (let tokens = map (\<lambda>t. t #
                              (case m_pCategories q of
                                 None \<Rightarrow> []
                               | Some categories \<Rightarrow>
                                   map (\<lambda>it. FeatureTypeToString e (snd it))
                                     (filter (\<lambda>it. fst it = t) categories)))
                          (m_tokens q);
               langs = [m_preferredLanguage q, GetLangIndex e ''int_name'',
                        GetLangIndex e ''en'', GetLangIndex e ''default'']
           in SearchFeatures4 e tokens mwmInfo langs True q))"

section \<open>FlushResults (search_query.cpp, 298-455)\<close>

text \<open>
  \<open>std::set<PreResult1, LessByFeatureID>\<close> as the ascending list of its elements;
  an element equivalent to one already there is not inserted. \<open>std::pair\<close> compares
  lexicographically.
\<close>

definition LessByFeatureID :: "('d, 'r) PreResult1 \<Rightarrow> ('d, 'r) PreResult1 \<Rightarrow> bool" where
  "LessByFeatureID r1 r2 =
     (fst (GetID r1) < fst (GetID r2)
      \<or> (\<not> fst (GetID r2) < fst (GetID r1) \<and> snd (GetID r1) < snd (GetID r2)))"

fun set_insert :: "('a \<Rightarrow> 'a \<Rightarrow> bool) \<Rightarrow> 'a \<Rightarrow> 'a list \<Rightarrow> 'a list" where
  "set_insert lt x [] = [x]"
| "set_insert lt x (y # ys) =
     (if lt x y then x # y # ys
      else if lt y x then y # set_insert lt x ys
      else y # ys)"

text \<open>
  \<open>PreResult2Maker::operator()\<close>. \<open>m_features\<close> maps the id of a tile to its
  features vector (here the tile's value), once a lock has given one. The country name
  is read only in the call that creates the vector; it is the empty string for a world
  tile and in every later call for the same tile. \<open>None\<close> is the null result.
\<close>

definition PreResult2Maker_call ::
  "('d, 'r, 'f) env \<Rightarrow> ('d, 'r, 'f) Query \<Rightarrow> ('d, 'r, 'f) Mwm list
     \<Rightarrow> (nat \<times> ('d, 'f) MwmValue) list \<Rightarrow> ('d, 'r) PreResult1
     \<Rightarrow> (nat \<times> ('d, 'f) MwmValue) list \<times> ('d, 'r, 'f) PreResult2 option" where
  "PreResult2Maker_call e q m_mwmInfo m_features r =
     (let id = GetID r;
          make = (\<lambda>pMwm countryName.
                    (let feature = features_Get pMwm (fst id);
                         pn = GetBestMatchName (m_pKeywordsScorer q)
                                (ForEachNameRef_names e feature) []
                     in FeatureResult feature r (snd pn) countryName))
      in case map_of m_features (snd id) of
           Some pMwm \<Rightarrow> (m_features, Some (make pMwm []))
         | None \<Rightarrow>
             if snd id < length m_mwmInfo then
               (case lock_GetValue (m_mwmInfo ! snd id) of
                  None \<Rightarrow> (m_features, None)
                | Some pMwm \<Rightarrow>
                    ((snd id, pMwm) # m_features,
                     Some (make pMwm (if header_GetType pMwm = world then []
                                      else lock_GetCountryName (m_mwmInfo ! snd id)))))
             else (m_features, None))"

text \<open>The loop that makes the vector of \<open>PreResult2\<close> without strictly equal results (403-413).\<close>

fun make_indV ::
  "('d, 'r, 'f) env \<Rightarrow> ('d, 'r, 'f) Query \<Rightarrow> ('d, 'r, 'f) Mwm list
     \<Rightarrow> (nat \<times> ('d, 'f) MwmValue) list \<Rightarrow> ('d, 'r) PreResult1 list
     \<Rightarrow> ('d, 'r, 'f) PreResult2 IndexedValue list \<Rightarrow> ('d, 'r, 'f) PreResult2 IndexedValue list" where
  "make_indV e q mwmInfo m_features [] indV = indV"
| "make_indV e q mwmInfo m_features (r # rest) indV =
     (case PreResult2Maker_call e q mwmInfo m_features r of
        (m_features', None) \<Rightarrow> make_indV e q mwmInfo m_features' rest indV
      | (m_features', Some res) \<Rightarrow>
          make_indV e q mwmInfo m_features' rest
            (if find (\<lambda>p. StrictEqualF e res (m_val p)) indV = None
             then indV @ [IndexedValue_ctor res] else indV))"

text \<open>\<open>std::unique\<close>: an element is dropped when the last one kept is equal to it.\<close>

fun unique_after :: "('a \<Rightarrow> 'a \<Rightarrow> bool) \<Rightarrow> 'a \<Rightarrow> 'a list \<Rightarrow> 'a list" where
  "unique_after eq kept [] = []"
| "unique_after eq kept (x # xs) =
     (if eq kept x then unique_after eq kept xs else x # unique_after eq x xs)"

fun std_unique :: "('a \<Rightarrow> 'a \<Rightarrow> bool) \<Rightarrow> 'a list \<Rightarrow> 'a list" where
  "std_unique eq [] = []"
| "std_unique eq (x # xs) = x # unique_after eq x xs"

text \<open>
  The ranks of one criterion (429-437), over the vector sorted by it: the rank grows
  where the comparator puts an element strictly after its predecessor.
\<close>

fun assign_ranks ::
  "('a \<Rightarrow> 'a \<Rightarrow> bool) \<Rightarrow> nat \<Rightarrow> nat \<Rightarrow> 'a IndexedValue \<Rightarrow> 'a IndexedValue list
     \<Rightarrow> 'a IndexedValue list" where
  "assign_ranks cmp i rank prev [] = []"
| "assign_ranks cmp i rank prev (x # xs) =
     (let rank' = (if cmp (m_val prev) (m_val x) then rank + 1 else rank);
          x' = SetIndex i rank' x
      in x' # assign_ranks cmp i rank' x' xs)"

fun assign_ranks_from0 ::
  "('a \<Rightarrow> 'a \<Rightarrow> bool) \<Rightarrow> nat \<Rightarrow> 'a IndexedValue list \<Rightarrow> 'a IndexedValue list" where
  "assign_ranks_from0 cmp i [] = []"
| "assign_ranks_from0 cmp i (x # xs) =
     (let x' = SetIndex i 0 x in x' # assign_ranks cmp i 0 x' xs)"

definition rank_by_criterion ::
  "('d, 'r, 'f) env \<Rightarrow> ('d, 'r, 'f) PreResult2 IndexedValue list \<Rightarrow> nat
     \<Rightarrow> ('d, 'r, 'f) PreResult2 IndexedValue list" where
  "rank_by_criterion e indV i =
     (let cmp = (\<lambda>a b. g_arrCompare2 e i (m_val a) (m_val b))
      in assign_ranks_from0 (g_arrCompare2 e i) i (std_sort e cmp indV))"

text \<open>The emission loop (447-454): the cancel flag is read before each result.\<close>

fun emit_results ::
  "('d, 'r, 'f) env \<Rightarrow> ('d, 'r, 'f) Query \<Rightarrow> ('d, 'r, 'f) PreResult2 IndexedValue list
     \<Rightarrow> ('d, 'r, 'f) Query \<times> ('d, 'r, 'f) PreResult2 list" where
  "emit_results e q [] = (q, [])"
| "emit_results e q (x # xs) =
     (case read_cancel e q of
        (True, q1) \<Rightarrow> (q1, [])
      | (False, q1) \<Rightarrow>
          (case emit_results e q1 xs of (q2, res) \<Rightarrow> (q2, m_val x # res)))"

text \<open>
  The second half of \<open>FlushResults\<close> (422-454), from the vector left by the removal
  of duplicating linear objects: the three rankings, the combined criterion, the final
  sort and the emission. The result is the query and the results added to the sink.
\<close>

definition FlushResults_ranked ::
  "('d, 'r, 'f) env \<Rightarrow> ('d, 'r, 'f) Query \<Rightarrow> ('d, 'r, 'f) PreResult2 IndexedValue list
     \<Rightarrow> ('d, 'r, 'f) Query \<times> ('d, 'r, 'f) PreResult2 list" where
  "FlushResults_ranked e q indV =
     (let indV1 = foldl (rank_by_criterion e) indV [0..<m_qCount];
          indV2 = map SortIndex indV1;
          indV3 = std_sort e IndexedValue_less indV2
      in emit_results e q indV3)"

definition FlushResults ::
  "('d, 'r, 'f) env \<Rightarrow> ('d, 'r, 'f) Query
     \<Rightarrow> error option \<times> ('d, 'r, 'f) Query \<times> ('d, 'r, 'f) PreResult2 list" where
  "FlushResults e q =
     (let theSet = foldl (\<lambda>s qu. foldl (\<lambda>s r. set_insert LessByFeatureID r s) s (m_queue qu))
                     [] (m_results q);
          q1 = q\<lparr>m_results := map queue_clear (m_results q)\<rparr>
      in case m_pIndex q1 of
           None \<Rightarrow> (Some NullDereference, q1, [])
         | Some mwmInfo \<Rightarrow>
             (let indV = make_indV e q1 mwmInfo [] theSet [];
                  indV1 = std_sort e (\<lambda>a b. LessLinearTypesF e (m_val a) (m_val b)) indV;
                  indV2 = std_unique (\<lambda>a b. EqualLinearTypesF e (m_val a) (m_val b)) indV1
              in case FlushResults_ranked e q1 indV2 of (q2, out) \<Rightarrow> (None, q2, out)))"

section \<open>Search (search_query.cpp, 149-208)\<close>

text \<open>
  \<open>Search(query, res, resultsNeeded)\<close>: the result is the exception that left the
  call, if any, the query object, and the sink \<open>res\<close> with the results added.
\<close>

definition Search ::
  "('d, 'r, 'f) env \<Rightarrow> string \<Rightarrow> ('d, 'r, 'f) PreResult2 list \<Rightarrow> 32 word \<Rightarrow> ('d, 'r, 'f) Query
     \<Rightarrow> error option \<times> ('d, 'r, 'f) Query \<times> ('d, 'r, 'f) PreResult2 list" where
  "Search e query res resultsNeeded q =
     (let q1 = Search_Initialize e query resultsNeeded q;
          res1 = (case MatchLatLon e (m_rawQuery q1) of
                    Some (lat, lon, latPrec, lonPrec) \<Rightarrow>
                      res @ [LatLonResult (m_viewport q1) (m_position q1) lat lon]
                  | None \<Rightarrow> res)
      in case read_cancel e q1 of
           (True, q2) \<Rightarrow> (None, q2, res1)
         | (False, q2) \<Rightarrow>
             (let res2 = res1 @ SuggestStrings e q2
              in case read_cancel e q2 of
                   (True, q3) \<Rightarrow> (None, q3, res2)
                 | (False, q3) \<Rightarrow>
                     (case SearchFeatures e q3 of
                        (Some err, q4) \<Rightarrow> (Some err, q4, res2)
                      | (None, q4) \<Rightarrow>
                          (case read_cancel e q4 of
                             (True, q5) \<Rightarrow> (None, q5, res2)
                           | (False, q5) \<Rightarrow>
                               (case FlushResults e q5 of
                                  (err, q6, out) \<Rightarrow> (err, q6, res2 @ out))))))"

section \<open>Notions used to state the properties\<close>

text \<open>
  The value \<open>UpdateViewportOffsets\<close> gives to the entry of a tile, as a function of
  the viewport, the extended viewport and the tile.
\<close>

definition tile_offsets ::
  "('d, 'r, 'f) env \<Rightarrow> 'r \<Rightarrow> 'r \<Rightarrow> ('d, 'r, 'f) Mwm \<Rightarrow> 32 word list" where
  "tile_offsets e viewport viewportExtended mwm =
     (case lock_GetValue mwm of
        None \<Rightarrow> []
      | Some pMwm \<Rightarrow>
          if IsIntersect e viewportExtended (m_limitRect mwm) \<and> header_GetType pMwm = country
          then sort (concat (map (\<lambda>i. ForEachInIntervalAndScale pMwm (fst i) (snd i)
                                        (min (max (GetScaleLevel e viewport + 7)
                                               (fst (header_GetScaleRange pMwm)))
                                           (snd (header_GetScaleRange pMwm))))
                               (CoveringGetter_Get e viewport (header_GetLastScale pMwm))))
          else [])"

text \<open>
  The values the trie matcher reaches in a tile below the language edges it follows,
  in the order of the loop over the edges \<open>is\<close> of the trie root (662-682): an edge
  is followed when its language code is below \<open>CATEGORIES_LANG\<close> and among the
  languages searched; \<open>c\<close> is the categories edge.
\<close>

definition reached_in_tile ::
  "('d, 'r, 'f) env \<Rightarrow> UniString list list \<Rightarrow> 8 word list \<Rightarrow> ('d, 'f) MwmValue \<Rightarrow> UniString
     \<Rightarrow> nat \<Rightarrow> nat list \<Rightarrow> 'd TrieValueT list" where
  "reached_in_tile e tokens langs pMwm prefix c is =
     concat (map (\<lambda>i. trie_reached pMwm tokens prefix i c)
               (filter (\<lambda>i. fst (trie_m_edge pMwm ! i) < CATEGORIES_LANG e
                             \<and> fst (trie_m_edge pMwm ! i) \<in> set langs) is))"

text \<open>
  What feature matching and the flush may change in the query object: the cancel flag,
  the queues and the count of reads of the flag.
\<close>

definition run_frame :: "('d, 'r, 'f) Query \<Rightarrow> ('d, 'r, 'f) Query \<Rightarrow> bool" where
  "run_frame q q' = (\<exists>c r p. q' = q\<lparr>m_cancel := c, m_results := r, polls := p\<rparr>)"

text \<open>
  The invariant of a candidate queue: no two elements with the same \<open>GetID\<close>, and
  not more elements than the capacity \<open>2 * resultsNeeded\<close> as \<open>Search\<close> computes it
  (in \<open>unsigned int\<close>), which is at most the product in the natural numbers.
\<close>

definition queue_ok :: "32 word \<Rightarrow> ('d, 'r) PreResult1 QueueT \<Rightarrow> bool" where
  "queue_ok resultsNeeded qu =
     (distinct (map GetID (m_queue qu))
      \<and> length (m_queue qu) \<le> m_maxSize qu
      \<and> m_maxSize qu = unat (2 * resultsNeeded)
      \<and> length (m_queue qu) \<le> 2 * unat resultsNeeded)"

definition queues_ok :: "32 word \<Rightarrow> ('d, 'r, 'f) Query \<Rightarrow> bool" where
  "queues_ok resultsNeeded q =
     (length (m_results q) = m_qCount \<and> list_all (queue_ok resultsNeeded) (m_results q))"

text \<open>
  The string \<open>SuggestStrings\<close> matches against the dictionary, if any: the prefix
  alone, or the only token, followed by a space and the prefix when the prefix is not
  empty.
\<close>

definition suggest_target :: "('d, 'r, 'f) Query \<Rightarrow> UniString option" where
  "suggest_target q =
     (if m_tokens q = [] \<and> m_prefix q \<noteq> [] then Some (m_prefix q)
      else if length (m_tokens q) = 1 then
        Some (if m_prefix q = [] then m_tokens q ! 0 else m_tokens q ! 0 @ [32] @ m_prefix q)
      else None)"

text \<open>
  The suggester as the specification words it: the target of the one-token case is
  always \<open>token[0] + " " + prefix\<close>, and an entry \<open>(s, m)\<close> is emitted when
  \<open>m \<le> target.size()\<close> and "the entry is a string prefix of the target".
\<close>

definition spec_suggest_target :: "('d, 'r, 'f) Query \<Rightarrow> UniString option" where
  "spec_suggest_target q =
     (if m_tokens q = [] \<and> m_prefix q \<noteq> [] then Some (m_prefix q)
      else if length (m_tokens q) = 1 then Some (m_tokens q ! 0 @ [32] @ m_prefix q)
      else None)"

definition spec_suggest_match :: "UniString \<Rightarrow> UniString \<times> 8 word \<Rightarrow> bool" where
  "spec_suggest_match target it =
     (unat (snd it) \<le> length target \<and> StartsWith target (fst it))"

definition spec_SuggestStrings ::
  "('d, 'r, 'f) env \<Rightarrow> ('d, 'r, 'f) Query \<Rightarrow> ('d, 'r, 'f) PreResult2 list" where
  "spec_SuggestStrings e q =
     (case m_pStringsToSuggest q of
        None \<Rightarrow> []
      | Some strings \<Rightarrow>
          (case spec_suggest_target q of
             None \<Rightarrow> []
           | Some target \<Rightarrow>
               map (\<lambda>it. SuggestResult (ToUtf8 e (fst it)) (snd it))
                 (filter (spec_suggest_match target) strings)))"

text \<open>
  What \<open>std::sort\<close> requires of a comparator on the elements it sorts (a strict weak
  ordering), and what it then guarantees: a permutation in which no element compares
  below an earlier one. The order of equivalent elements is left open.
\<close>

definition strict_weak_on :: "'a set \<Rightarrow> ('a \<Rightarrow> 'a \<Rightarrow> bool) \<Rightarrow> bool" where
  "strict_weak_on S cmp =
     ((\<forall>a \<in> S. \<not> cmp a a)
      \<and> (\<forall>a \<in> S. \<forall>b \<in> S. \<forall>c \<in> S. cmp a b \<and> cmp b c \<longrightarrow> cmp a c)
      \<and> (\<forall>a \<in> S. \<forall>b \<in> S. \<forall>c \<in> S. \<not> cmp a b \<and> \<not> cmp b c \<longrightarrow> \<not> cmp a c))"

definition sort_contract :: "(('a \<Rightarrow> 'a \<Rightarrow> bool) \<Rightarrow> 'a list \<Rightarrow> 'a list) \<Rightarrow> bool" where
  "sort_contract srt =
     (\<forall>cmp xs. strict_weak_on (set xs) cmp \<longrightarrow>
        mset (srt cmp xs) = mset xs \<and> sorted_wrt (\<lambda>a b. \<not> cmp b a) (srt cmp xs))"

text \<open>
  The rank positions of criterion \<open>i\<close> agree with its comparator on a set of ranked
  entries: an entry that is not worse has a position that is not greater, and a strictly
  better entry has a strictly smaller position.
\<close>

definition ranked_on :: "('a \<Rightarrow> 'a \<Rightarrow> bool) \<Rightarrow> nat \<Rightarrow> 'a IndexedValue set \<Rightarrow> bool" where
  "ranked_on cmp i S =
     (\<forall>x \<in> S. \<forall>y \<in> S.
        (\<not> cmp (m_val y) (m_val x) \<longrightarrow> m_ind x ! i \<le> m_ind y ! i)
        \<and> (cmp (m_val x) (m_val y) \<longrightarrow> m_ind x ! i < m_ind y ! i))"

definition rank_inv ::
  "('d, 'r, 'f) env \<Rightarrow> ('d, 'r, 'f) PreResult2 set \<Rightarrow> nat
     \<Rightarrow> ('d, 'r, 'f) PreResult2 IndexedValue list \<Rightarrow> bool" where
  "rank_inv e C k W =
     (m_val ` set W = C
      \<and> (\<forall>x \<in> set W. length (m_ind x) = m_qCount)
      \<and> (\<forall>i < k. ranked_on (g_arrCompare2 e i) i (set W)))"

section \<open>A small index, for the executable instances\<close>

text \<open>
  An insertion sort stands for \<open>std::sort\<close> in the instances; it meets the contract
  above (\<open>insertion_sort_contract\<close> below).
\<close>

fun insert_sorted :: "('a \<Rightarrow> 'a \<Rightarrow> bool) \<Rightarrow> 'a \<Rightarrow> 'a list \<Rightarrow> 'a list" where
  "insert_sorted cmp x [] = [x]"
| "insert_sorted cmp x (y # ys) = (if cmp x y then x # y # ys else y # insert_sorted cmp x ys)"

definition insertion_sort :: "('a \<Rightarrow> 'a \<Rightarrow> bool) \<Rightarrow> 'a list \<Rightarrow> 'a list" where
  "insertion_sort cmp xs = foldr (insert_sorted cmp) xs []"

text \<open>
  One country tile: its geometry index gives the offsets 7 and 5 for the first interval
  of the covering and 7 again for the second; its trie has one language edge (code 1)
  and the categories edge, and the matcher reaches the features 5, 7 and 6. Rectangles
  are numbers and intersect when they are equal; the comparators order by rank,
  greatest first (criterion 0), and by feature offset (criteria 1 and 2).
\<close>

definition example_mwm :: "(int, nat) MwmValue" where
  "example_mwm =
     \<lparr>header_GetType = country, header_GetScaleRange = (0, 17), header_GetLastScale = 17,
      ForEachInIntervalAndScale = (\<lambda>first last scale. if first = 0 then [7, 5] else [7]),
      IsReaderExist_SEARCH_INDEX = True,
      trie_m_edge = [(1, []), (128, [])],
      trie_reached = (\<lambda>tokens prefix i c.
         [\<lparr>m_featureId = 5, m_rank = 3, m_pt = (0, 0)\<rparr>,
          \<lparr>m_featureId = 7, m_rank = 9, m_pt = (1, 1)\<rparr>,
          \<lparr>m_featureId = 6, m_rank = 1, m_pt = (2, 2)\<rparr>]),
      features_Get = (\<lambda>offset. unat offset)\<rparr>"

definition example_env :: "(int, int, nat) env" where
  "example_env =
     \<lparr>NormalizeAndSimplifyString = map (\<lambda>c. of_char c),
      delims = (\<lambda>c. c = 32 \<or> c = 44),
      LastUniChar = (\<lambda>s. if s = [] then 0 else of_char (last s)),
      GetLangIndex = (\<lambda>s. if s = ''default'' then 0 else if s = ''en'' then 1
                          else if s = ''int_name'' then 2 else 3),
      LangKeywordsScorer = (\<lambda>langPriorities tokens prefix lang name.
                              if lang = 1 then 0 else - 1),
      MatchLatLon = (\<lambda>s. None),
      rect_Scale = (\<lambda>r n. r),
      IsIntersect = (\<lambda>r1 r2. r1 = r2),
      GetScaleLevel = (\<lambda>r. 10),
      CoveringGetter_Get = (\<lambda>r scale. [(0, 8), (8, 16)]),
      FeatureTypeToString = (\<lambda>t. []),
      ToUtf8 = map (\<lambda>c. char_of (unat c)),
      CATEGORIES_LANG = 128,
      g_arrCompare1 = (\<lambda>i r1 r2. if i = 0 then r1_rank r2 < r1_rank r1
                                   else r1_featureId r1 < r1_featureId r2),
      g_arrCompare2 = (\<lambda>i r1 r2. case (r1, r2) of
                          (FeatureResult f1 p1 n1 c1, FeatureResult f2 p2 n2 c2) \<Rightarrow>
                            (if i = 0 then r1_rank p2 < r1_rank p1
                             else r1_featureId p1 < r1_featureId p2)
                        | _ \<Rightarrow> False),
      StrictEqualF = (\<lambda>r1 r2. r1 = r2),
      LessLinearTypesF = (\<lambda>r1 r2. False),
      EqualLinearTypesF = (\<lambda>r1 r2. False),
      ForEachNameRef_names = (\<lambda>f. [(0, ''Strasse''), (1, ''Street'')]),
      std_sort = insertion_sort,
      cancelRequested = (\<lambda>n. False)\<rparr>"

text \<open>
  The query object as the constructor leaves it (empty viewport 0, cache not valid),
  with a dictionary of one suggestion, \<open>cafe\<close> with minimal length 3.
\<close>

definition example_query :: "(int, int, nat) Query" where
  "example_query =
     \<lparr>m_pIndex = Some [\<lparr>m_limitRect = 1, lock_GetValue = Some example_mwm,
                         lock_GetCountryName = ''Austria''\<rparr>],
      m_pCategories = None,
      m_pStringsToSuggest = Some [([99, 97, 102, 101], 3)],
      m_preferredLanguage = 1,
      m_viewport = 0, m_viewportExtended = 0,
      m_position = (0, 0),
      m_bOffsetsCacheIsValid = False,
      m_offsetsInViewport = [],
      m_cancel = False,
      m_rawQuery = [], m_uniQuery = [], m_tokens = [], m_prefix = [],
      m_pKeywordsScorer = (\<lambda>lang name. - 1),
      m_results = [],
      polls = 0\<rparr>"

text \<open>
  The same tile with the type world, and a query object set up by the beginning of
  \<open>Search\<close> for the query \<open>caf\<close> over an index that holds this tile alone, with
  the cache as \<open>UpdateViewportOffsets\<close> fills it for a world tile.
\<close>

definition example_world_mwm :: "(int, nat) MwmValue" where
  "example_world_mwm = example_mwm\<lparr>header_GetType := world\<rparr>"

definition example_world_query :: "(int, int, nat) Query" where
  "example_world_query =
     Search_Initialize example_env ''caf'' 10
       (example_query\<lparr>m_pIndex := Some [\<lparr>m_limitRect = 1, lock_GetValue = Some example_world_mwm,
                                          lock_GetCountryName = []\<rparr>],
                      m_viewport := 1, m_viewportExtended := 1,
                      m_offsetsInViewport := [[]], m_bOffsetsCacheIsValid := True\<rparr>)"

text \<open>Two promoted results: \<open>example_A\<close> is better than \<open>example_B\<close> on every criterion.\<close>

definition example_A :: "(int, int, nat) PreResult2" where
  "example_A = FeatureResult 5
     \<lparr>r1_featureId = 5, r1_rank = 9, r1_pt = (0, 0), r1_mwmID = 0, r1_position = (0, 0),
      r1_viewport = 1\<rparr> ''Ring'' ''Austria''"

definition example_B :: "(int, int, nat) PreResult2" where
  "example_B = FeatureResult 7
     \<lparr>r1_featureId = 7, r1_rank = 3, r1_pt = (1, 1), r1_mwmID = 0, r1_position = (0, 0),
      r1_viewport = 1\<rparr> ''Gasse'' ''Austria''"

section \<open>Theorems\<close>

subsection \<open>The filter and cancellation\<close>

text \<open>
  C8. Every admission decision of the filter reads the cancel flag first: when the flag
  is set the call throws the cancel exception, for a world tile (\<open>m_alwaysTrue\<close>) as
  for any other and whatever the cache entry holds; only when it is not set does the
  call answer, with \<open>m_alwaysTrue || binary_search(...)\<close>.
\<close>

theorem filter_polls_cancel_first:
  "FeaturesFilter offsets alwaysTrue True offset = Inl CancelException
   \<and> FeaturesFilter offsets True True offset = Inl CancelException
   \<and> FeaturesFilter offsets alwaysTrue False offset
       = Inr (alwaysTrue \<or> binary_search offsets offset)"
  by (simp add: FeaturesFilter_def)

text \<open>
  On a sorted vector the binary search is membership, so that for a tile that is not a
  world tile the filter admits exactly the offsets of the tile's cache entry (which is
  sorted, see \<open>tile_offsets_sorted\<close> below).
\<close>

lemma lower_bound_spec:
  "sorted xs \<Longrightarrow> first + cnt \<le> length xs
   \<Longrightarrow> first \<le> lower_bound xs v first cnt
       \<and> lower_bound xs v first cnt \<le> first + cnt
       \<and> (\<forall>i. first \<le> i \<and> i < lower_bound xs v first cnt \<longrightarrow> xs ! i < v)
       \<and> (\<forall>i. lower_bound xs v first cnt \<le> i \<and> i < first + cnt \<longrightarrow> \<not> xs ! i < v)"
proof (induction xs v first cnt rule: lower_bound.induct)
  case (1 xs v first cnt)
  show ?case
  proof (cases "cnt = 0")
    case True
    have "lower_bound xs v first cnt = first"
      using True by (subst lower_bound.simps) simp
    then show ?thesis using True by auto
  next
    case False
    let ?step = "cnt div 2"
    let ?it = "first + ?step"
    have it: "?it < length xs" using False "1.prems"(2) by (simp add: less_le_trans)
    show ?thesis
    proof (cases "xs ! ?it < v")
      case True
      let ?r = "lower_bound xs v (?it + 1) (cnt - (?step + 1))"
      have eq: "lower_bound xs v first cnt = ?r"
        using False True by (simp add: lower_bound.simps [of xs v first cnt] Let_def)
      have ih: "?it + 1 \<le> ?r \<and> ?r \<le> ?it + 1 + (cnt - (?step + 1))
        \<and> (\<forall>i. ?it + 1 \<le> i \<and> i < ?r \<longrightarrow> xs ! i < v)
        \<and> (\<forall>i. ?r \<le> i \<and> i < ?it + 1 + (cnt - (?step + 1)) \<longrightarrow> \<not> xs ! i < v)"
        using "1.IH"(1) [OF False refl refl True "1.prems"(1)] "1.prems"(2) False by simp
      have below: "xs ! i < v" if "first \<le> i" "i \<le> ?it" for i
      proof -
        have "xs ! i \<le> xs ! ?it" using "1.prems"(1) that(2) it by (simp add: sorted_nth_mono)
        then show ?thesis using True by simp
      qed
      have sum: "?it + 1 + (cnt - (?step + 1)) = first + cnt" using False by simp
      have c3: "xs ! i < v" if "first \<le> i" "i < ?r" for i
      proof (cases "i \<le> ?it")
        case True
        then show ?thesis using below that(1) by simp
      next
        case False
        then have "?it + 1 \<le> i" by simp
        then show ?thesis using ih that(2) by blast
      qed
      have c4: "\<not> xs ! i < v" if "?r \<le> i" "i < first + cnt" for i
        using ih that sum by simp
      have c1: "first \<le> ?r" using ih by simp
      have c2: "?r \<le> first + cnt" using ih sum by simp
      show ?thesis
        unfolding eq using c1 c2 c3 c4 by blast
    next
      case nlt: False
      let ?r = "lower_bound xs v first ?step"
      have eq: "lower_bound xs v first cnt = ?r"
        using False nlt by (simp add: lower_bound.simps [of xs v first cnt] Let_def)
      have ih: "first \<le> ?r \<and> ?r \<le> first + ?step
        \<and> (\<forall>i. first \<le> i \<and> i < ?r \<longrightarrow> xs ! i < v)
        \<and> (\<forall>i. ?r \<le> i \<and> i < first + ?step \<longrightarrow> \<not> xs ! i < v)"
        using "1.IH"(2) [OF False refl refl nlt "1.prems"(1)] "1.prems"(2) by simp
      have above: "\<not> xs ! i < v" if "?it \<le> i" "i < first + cnt" for i
      proof -
        have "xs ! ?it \<le> xs ! i" using "1.prems"(1,2) that by (simp add: sorted_nth_mono)
        then show ?thesis using nlt by simp
      qed
      have c4: "\<not> xs ! i < v" if "?r \<le> i" "i < first + cnt" for i
      proof (cases "i < ?it")
        case True
        then show ?thesis using ih that(1) by blast
      next
        case False
        then show ?thesis using above that(2) by simp
      qed
      have c1: "first \<le> ?r" using ih by simp
      have c2: "?r \<le> first + cnt" using ih by (simp add: le_trans [of _ "first + cnt div 2"])
      have c3: "xs ! i < v" if "first \<le> i" "i < ?r" for i
        using ih that by blast
      show ?thesis
        unfolding eq using c1 c2 c3 c4 by blast
    qed
  qed
qed

lemma binary_search_member: "sorted xs \<Longrightarrow> binary_search xs v \<longleftrightarrow> v \<in> set xs"
proof -
  assume s: "sorted xs"
  let ?r = "lower_bound xs v 0 (length xs)"
  have sp: "?r \<le> length xs \<and> (\<forall>i. i < ?r \<longrightarrow> xs ! i < v)
      \<and> (\<forall>i. ?r \<le> i \<and> i < length xs \<longrightarrow> \<not> xs ! i < v)"
    using lower_bound_spec [OF s, of 0 "length xs" v] by simp
  show ?thesis
  proof
    assume "binary_search xs v"
    then have r: "?r \<noteq> length xs" "\<not> v < xs ! ?r" by (simp_all add: binary_search_def Let_def)
    then have "?r < length xs" using sp by simp
    moreover have "\<not> xs ! ?r < v" using sp calculation by simp
    then have "xs ! ?r = v" using r(2) by simp
    ultimately show "v \<in> set xs" using nth_mem [of ?r xs] by simp
  next
    assume "v \<in> set xs"
    then obtain k where k: "k < length xs" "xs ! k = v" by (auto simp add: in_set_conv_nth)
    have "\<not> k < ?r" using sp k by auto
    then have "?r \<le> k" by simp
    then have "?r < length xs" "xs ! ?r \<le> v"
      using k s sorted_nth_mono [of xs ?r k] by auto
    then show "binary_search xs v" by (simp add: binary_search_def Let_def)
  qed
qed

lemma FeaturesFilter_sorted:
  "sorted offsets \<Longrightarrow> FeaturesFilter offsets False False offset = Inr (offset \<in> set offsets)"
  by (simp add: FeaturesFilter_def binary_search_member)

subsection \<open>The best name of a feature\<close>

lemma ForEachNameRef_worst:
  "\<forall>ln \<in> set names. \<not> score (fst ln) (snd ln) < p
   \<Longrightarrow> ForEachNameRef (BestNameFinder_call score) names (p, name) = ((p, name), True)"
  by (induction names) (simp_all add: BestNameFinder_call_def)

lemma BestNameFinder_call_skips_worst:
  "score (fst ln) (snd ln) = - 1 \<Longrightarrow> BestNameFinder_call score pn ln = (pn, True)"
  by (simp add: BestNameFinder_call_def Let_def)

lemma BestNameFinder_call_continues: "snd (BestNameFinder_call score pn ln) = True"
  by (simp add: BestNameFinder_call_def Let_def)

lemma ForEachNameRef_filter_worst:
  "ForEachNameRef (BestNameFinder_call score) names pn
   = ForEachNameRef (BestNameFinder_call score)
       (filter (\<lambda>ln. score (fst ln) (snd ln) \<noteq> - 1) names) pn"
proof (induction names arbitrary: pn)
  case Nil
  show ?case by simp
next
  case (Cons ln names)
  obtain pn' where c: "BestNameFinder_call score pn ln = (pn', True)"
    using BestNameFinder_call_continues [of score pn ln]
    by (cases "BestNameFinder_call score pn ln") simp
  show ?case
  proof (cases "score (fst ln) (snd ln) = - 1")
    case True
    then show ?thesis
      using Cons.IH [of pn] by (simp add: BestNameFinder_call_skips_worst)
  next
    case False
    then show ?thesis
      using Cons.IH [of pn'] c by simp
  qed
qed

lemma unat_worst_penalty: "unat (- 1 :: 32 word) = 2 ^ 32 - 1"
  by (simp add: unsigned_minus_1_eq_mask mask_eq_exp_minus_1)

text \<open>
  C10. When no name of the feature scores strictly below \<open>uint32_t(-1)\<close> (no names at
  all, or every name at the worst penalty), \<open>GetBestMatchName\<close> returns the penalty
  \<open>2^32 - 1\<close> and leaves the name as the caller passed it, which is the empty string
  in \<open>PreResult2Maker\<close>. A name that scores the worst penalty is never selected: the
  result is the same as on the names without those.
\<close>

theorem best_name_worst_penalty:
  "((\<forall>ln \<in> set names. \<not> score (fst ln) (snd ln) < - 1) \<longrightarrow>
      GetBestMatchName score names name = (- 1, name)
      \<and> GetBestMatchName score names [] = (- 1, [])
      \<and> unat (fst (GetBestMatchName score names [])) = 2 ^ 32 - 1)
   \<and> GetBestMatchName score [] [] = (- 1, [])
   \<and> GetBestMatchName score names name
       = GetBestMatchName score (filter (\<lambda>ln. score (fst ln) (snd ln) \<noteq> - 1) names) name"
proof -
  have a: "GetBestMatchName score names name
       = GetBestMatchName score (filter (\<lambda>ln. score (fst ln) (snd ln) \<noteq> - 1) names) name"
    unfolding GetBestMatchName_def by (rule arg_cong [OF ForEachNameRef_filter_worst])
  have b: "GetBestMatchName score names nm = (- 1, nm)"
    if "\<forall>ln \<in> set names. \<not> score (fst ln) (snd ln) < - 1" for nm
    using that by (simp add: GetBestMatchName_def BestNameFinder_ctor_def ForEachNameRef_worst)
  have c: "GetBestMatchName score [] [] = (- 1, [])"
    by (simp add: GetBestMatchName_def BestNameFinder_ctor_def)
  show ?thesis
    using b [of name] b [of "[]"] c a
    by (auto simp add: unat_worst_penalty simp del: filter.simps)
qed

theorem best_name_worst_penalty_witness:
  "list_all (\<lambda>ln. \<not> (\<lambda>l n. - 1 :: 32 word) (fst ln) (snd ln) < - 1)
     [(1 :: 8 word, ''Wien''), (2, ''Vienna'')]
   \<and> GetBestMatchName (\<lambda>l n. - 1) [(1, ''Wien''), (2, ''Vienna'')] [] = (- 1, [])
   \<and> GetBestMatchName (\<lambda>l n. if n = ''Vienna'' then 5 else - 1)
        [(1, ''Wien''), (2, ''Vienna''), (3, ''Bec'')] [] = (5, ''Vienna'')"
  using best_name_worst_penalty [of "[(1, ''Wien''), (2, ''Vienna'')]" "\<lambda>l n. - 1" "[]"]
  by (simp add: GetBestMatchName_def BestNameFinder_ctor_def BestNameFinder_call_def)

subsection \<open>The suggester\<close>

lemma StartsWith_prefix: "StartsWith s t = (take (length t) s = t)"
  by (induction s t rule: StartsWith.induct) auto

lemma MatchForSuggestions_filter:
  "MatchForSuggestions e strings token
   = map (\<lambda>it. SuggestResult (ToUtf8 e (fst it)) (snd it))
       (filter (\<lambda>it. unat (snd it) \<le> length token \<and> StartsWith (fst it) token) strings)"
  by (induction strings) (simp_all add: Let_def)

text \<open>
  C9, as the code has it. Without a dictionary nothing is suggested. Otherwise the
  suggester fires when the token list is empty and the prefix is not (target = prefix),
  or when there is exactly one token (target = the token when the prefix is empty, the
  token, a space and the prefix otherwise); an entry \<open>(s, m)\<close> of the dictionary gives
  a suggestion exactly when \<open>m \<le> target.size()\<close> and the target is a string prefix
  of \<open>s\<close>. The results are in the order of the dictionary.
\<close>

theorem suggester_rule:
  "SuggestStrings e q =
     (case m_pStringsToSuggest q of
        None \<Rightarrow> []
      | Some strings \<Rightarrow>
          (case suggest_target q of
             None \<Rightarrow> []
           | Some target \<Rightarrow>
               map (\<lambda>it. SuggestResult (ToUtf8 e (fst it)) (snd it))
                 (filter (\<lambda>it. unat (snd it) \<le> length target
                               \<and> take (length target) (fst it) = target) strings)))"
  by (simp add: SuggestStrings_def suggest_target_def MatchForSuggestions_filter
      StartsWith_prefix Let_def split: option.splits)

text \<open>
  The sentence of the specification fails as worded. With the only token \<open>cafe\<close>, an
  empty prefix and the entry (\<open>cafe\<close> followed by a space, 5), the code matches
  against \<open>cafe\<close> and the minimal length 5 exceeds its 4 code points: nothing is
  suggested, while the target of the specification has 5 code points and the entry is
  a prefix of it. With the prefix \<open>caf\<close> and the entry (\<open>cafe\<close>, 3) the code
  suggests \<open>cafe\<close>, while \<open>cafe\<close> is not a prefix of \<open>caf\<close>.
\<close>

theorem suggester_differs_from_spec:
  "SuggestStrings example_env
     (example_query\<lparr>m_tokens := [[99, 97, 102, 101]], m_prefix := [],
                    m_pStringsToSuggest := Some [([99, 97, 102, 101, 32], 5)]\<rparr>) = []
   \<and> spec_SuggestStrings example_env
       (example_query\<lparr>m_tokens := [[99, 97, 102, 101]], m_prefix := [],
                      m_pStringsToSuggest := Some [([99, 97, 102, 101, 32], 5)]\<rparr>)
      = [SuggestResult ''cafe '' 5]
   \<and> SuggestStrings example_env (example_query\<lparr>m_tokens := [], m_prefix := [99, 97, 102]\<rparr>)
      = [SuggestResult ''cafe'' 3]
   \<and> spec_SuggestStrings example_env
        (example_query\<lparr>m_tokens := [], m_prefix := [99, 97, 102]\<rparr>) = []"
  by code_simp

subsection \<open>The viewport offset cache\<close>

lemma foldl_append_concat: "foldl (\<lambda>v i. v @ f i) acc xs = acc @ concat (map f xs)"
  by (induction xs arbitrary: acc) simp_all

lemma UpdateViewportOffsets_tile_entry:
  assumes "mwmId < length mwmInfo" "length (m_offsetsInViewport q) = length mwmInfo"
    "m_offsetsInViewport q ! mwmId = []"
  shows "UpdateViewportOffsets_tile e mwmInfo (GetScaleLevel e (m_viewport q)) q mwmId
         = q\<lparr>m_offsetsInViewport := (m_offsetsInViewport q)
               [mwmId := tile_offsets e (m_viewport q) (m_viewportExtended q) (mwmInfo ! mwmId)]\<rparr>"
proof -
  have "(m_offsetsInViewport q)[mwmId := []] = m_offsetsInViewport q"
    using assms(3) list_update_id [of "m_offsetsInViewport q" mwmId] by simp
  then show ?thesis
    using assms(3)
    by (auto simp add: UpdateViewportOffsets_tile_def tile_offsets_def Let_def foldl_append_concat
        split: option.splits)
qed

lemma UpdateViewportOffsets_loop:
  assumes "k \<le> length mwmInfo"
    "m_offsetsInViewport q = replicate (length mwmInfo) []"
  shows "foldl (UpdateViewportOffsets_tile e mwmInfo (GetScaleLevel e (m_viewport q))) q [0..<k]
         = q\<lparr>m_offsetsInViewport :=
               map (tile_offsets e (m_viewport q) (m_viewportExtended q)) (take k mwmInfo)
               @ replicate (length mwmInfo - k) []\<rparr>"
  using assms
proof (induction k)
  case 0
  then show ?case by simp
next
  case (Suc k)
  let ?q = "q\<lparr>m_offsetsInViewport :=
               map (tile_offsets e (m_viewport q) (m_viewportExtended q)) (take k mwmInfo)
               @ replicate (length mwmInfo - k) []\<rparr>"
  have k: "k < length mwmInfo" using Suc.prems by simp
  have "foldl (UpdateViewportOffsets_tile e mwmInfo (GetScaleLevel e (m_viewport q))) q [0..<Suc k]
        = UpdateViewportOffsets_tile e mwmInfo (GetScaleLevel e (m_viewport ?q)) ?q k"
    using Suc by simp
  also have "\<dots> = ?q\<lparr>m_offsetsInViewport := (m_offsetsInViewport ?q)
               [k := tile_offsets e (m_viewport ?q) (m_viewportExtended ?q) (mwmInfo ! k)]\<rparr>"
    using k by (intro UpdateViewportOffsets_tile_entry) (simp_all add: nth_append)
  also have "\<dots> = q\<lparr>m_offsetsInViewport :=
               map (tile_offsets e (m_viewport q) (m_viewportExtended q)) (take (Suc k) mwmInfo)
               @ replicate (length mwmInfo - Suc k) []\<rparr>"
  proof -
    have "length mwmInfo - k = Suc (length mwmInfo - Suc k)" using k by simp
    then show ?thesis
      using k by (simp add: take_Suc_conv_app_nth list_update_append)
  qed
  finally show ?case .
qed

lemma UpdateViewportOffsets_entries:
  "UpdateViewportOffsets e q =
     (case m_pIndex q of
        None \<Rightarrow> (Some NullDereference, q\<lparr>m_offsetsInViewport := []\<rparr>)
      | Some mwmInfo \<Rightarrow>
          (None, q\<lparr>m_offsetsInViewport :=
                     map (tile_offsets e (m_viewport q) (m_viewportExtended q)) mwmInfo,
                   m_bOffsetsCacheIsValid := True\<rparr>))"
proof (cases "m_pIndex q")
  case None
  then show ?thesis by (simp add: UpdateViewportOffsets_def)
next
  case (Some mwmInfo)
  let ?q1 = "q\<lparr>m_offsetsInViewport := replicate (length mwmInfo) []\<rparr>"
  have "foldl (UpdateViewportOffsets_tile e mwmInfo (GetScaleLevel e (m_viewport ?q1))) ?q1
          [0..<length mwmInfo]
        = ?q1\<lparr>m_offsetsInViewport :=
               map (tile_offsets e (m_viewport ?q1) (m_viewportExtended ?q1))
                 (take (length mwmInfo) mwmInfo)
               @ replicate (length mwmInfo - length mwmInfo) []\<rparr>"
    by (rule UpdateViewportOffsets_loop) simp_all
  then show ?thesis using Some by (simp add: UpdateViewportOffsets_def Let_def)
qed

lemma tile_offsets_sorted: "sorted (tile_offsets e v ve mwm)"
  by (simp add: tile_offsets_def split: option.splits)

text \<open>
  C5, as the code has it. After \<open>UpdateViewportOffsets\<close> every entry of the cache is
  sorted ascending, not strictly: the entry of a country tile that can be read and whose
  limit rectangle meets the extended viewport holds all the offsets the geometry index
  delivers for the intervals of the covering, sorted, with every repetition kept; every
  other entry is empty.
\<close>

theorem offset_cache_sorted:
  "list_all sorted (m_offsetsInViewport (snd (UpdateViewportOffsets e q)))
   \<and> m_offsetsInViewport (snd (UpdateViewportOffsets e q))
       = (case m_pIndex q of
            None \<Rightarrow> []
          | Some mwmInfo \<Rightarrow> map (tile_offsets e (m_viewport q) (m_viewportExtended q)) mwmInfo)"
  by (simp add: UpdateViewportOffsets_entries list_all_iff tile_offsets_sorted split: option.splits)

text \<open>
  The entries need not be strictly ascending: in the small index the offset 7 is
  delivered for both intervals, and the entry is \<open>[5, 7, 7]\<close>.
\<close>

theorem offset_cache_not_strictly_ascending:
  "m_offsetsInViewport
     (snd (UpdateViewportOffsets example_env
             (example_query\<lparr>m_viewport := 1, m_viewportExtended := 1\<rparr>))) = [[5, 7, 7]]
   \<and> \<not> list_all (sorted_wrt (<))
         (m_offsetsInViewport
            (snd (UpdateViewportOffsets example_env
                    (example_query\<lparr>m_viewport := 1, m_viewportExtended := 1\<rparr>))))"
  by code_simp

subsection \<open>What a run changes in the query object\<close>

lemma run_frame_refl: "run_frame q q"
  unfolding run_frame_def
  by (rule exI [of _ "m_cancel q"], rule exI [of _ "m_results q"], rule exI [of _ "polls q"]) simp

lemma run_frame_trans: "run_frame q q' \<Longrightarrow> run_frame q' q'' \<Longrightarrow> run_frame q q''"
proof -
  assume "run_frame q q'" "run_frame q' q''"
  then obtain c r p c' r' p' where
    "q' = q\<lparr>m_cancel := c, m_results := r, polls := p\<rparr>"
    "q'' = q'\<lparr>m_cancel := c', m_results := r', polls := p'\<rparr>"
    unfolding run_frame_def by blast
  then have "q'' = q\<lparr>m_cancel := c', m_results := r', polls := p'\<rparr>" by simp
  then show ?thesis unfolding run_frame_def by (intro exI)
qed

lemma run_frame_read_cancel: "run_frame q (snd (read_cancel e q))"
  unfolding run_frame_def read_cancel_def Let_def
  by (rule exI [of _ "m_cancel q \<or> cancelRequested e (polls q)"],
      rule exI [of _ "m_results q"], rule exI [of _ "polls q + 1"]) simp

lemma run_frame_AddResultFromTrie: "run_frame q (AddResultFromTrie q val mwmID)"
  unfolding run_frame_def AddResultFromTrie_def Let_def
  by (rule exI [of _ "m_cancel q"], rule exI, rule exI [of _ "polls q"]) simp

lemma run_frame_MatchFeaturesInTrie:
  "run_frame q (snd (MatchFeaturesInTrie e offsets alwaysTrue mwmID vals q))"
proof (induction vals arbitrary: q)
  case Nil
  show ?case by (simp add: run_frame_refl)
next
  case (Cons v vals)
  obtain c q1 where rc: "read_cancel e q = (c, q1)" by (cases "read_cancel e q")
  have f1: "run_frame q q1" using run_frame_read_cancel [of q e] rc by simp
  show ?case
  proof (cases "FeaturesFilter offsets alwaysTrue c (m_featureId v)")
    case (Inl err)
    then show ?thesis using rc f1 by simp
  next
    case (Inr admitted)
    let ?q2 = "if admitted then AddResultFromTrie q1 v mwmID else q1"
    have "run_frame q ?q2"
      using f1 run_frame_AddResultFromTrie [of q1 v mwmID] run_frame_trans by auto
    then show ?thesis
      using rc Inr Cons.IH [of ?q2] run_frame_trans by auto
  qed
qed


lemma run_frame_SearchFeatures_langs:
  "run_frame q (snd (SearchFeatures_langs e tokens langs mwmId pMwm cr isWorld is q))"
proof (induction "is" arbitrary: q)
  case Nil
  show ?case by (simp add: run_frame_refl)
next
  case (Cons i rest)
  show ?case
  proof (cases "fst (trie_m_edge pMwm ! i) < CATEGORIES_LANG e
                \<and> fst (trie_m_edge pMwm ! i) \<in> set langs")
    case False
    then show ?thesis using Cons.IH [of q] by (auto simp add: Let_def)
  next
    case True
    show ?thesis
    proof (cases cr)
      case None
      then show ?thesis using True by (simp add: Let_def run_frame_refl)
    next
      case (Some c)
      show ?thesis
      proof (cases "mwmId < length (m_offsetsInViewport q)")
        case False
        then show ?thesis using True Some by (simp add: Let_def run_frame_refl)
      next
        case inr: True
        obtain err q' where m: "MatchFeaturesInTrie e (m_offsetsInViewport q ! mwmId) isWorld mwmId
                          (trie_reached pMwm tokens (m_prefix q) i c) q = (err, q')"
          by (cases "MatchFeaturesInTrie e (m_offsetsInViewport q ! mwmId) isWorld mwmId
                          (trie_reached pMwm tokens (m_prefix q) i c) q")
        have f: "run_frame q q'"
          using run_frame_MatchFeaturesInTrie [of q e "m_offsetsInViewport q ! mwmId" isWorld mwmId
              "trie_reached pMwm tokens (m_prefix q) i c"] m by simp
        show ?thesis
          using True Some inr m f Cons.IH [of q'] run_frame_trans [OF f]
          by (cases err) (simp_all add: Let_def)
      qed
    qed
  qed
qed

lemma run_frame_SearchFeatures_tile:
  "run_frame q (snd (SearchFeatures_tile e tokens langs mwmId pMwm q))"
  by (simp add: SearchFeatures_tile_def Let_def run_frame_SearchFeatures_langs)

lemma run_frame_SearchFeatures_tiles:
  "run_frame q (snd (SearchFeatures_tiles e tokens mwmInfo langs onlyInViewport ids q))"
proof (induction ids arbitrary: q)
  case Nil
  show ?case by (simp add: run_frame_refl)
next
  case (Cons mwmId rest)
  show ?case
  proof (cases "(\<not> onlyInViewport
         \<or> IsIntersect e (m_viewportExtended q) (m_limitRect (mwmInfo ! mwmId)))
         \<and> (\<exists>pMwm. lock_GetValue (mwmInfo ! mwmId) = Some pMwm \<and> IsReaderExist_SEARCH_INDEX pMwm)")
    case False
    then show ?thesis using Cons.IH [of q] by (auto split: option.splits)
  next
    case True
    then obtain pMwm where p: "lock_GetValue (mwmInfo ! mwmId) = Some pMwm"
      "IsReaderExist_SEARCH_INDEX pMwm" by blast
    obtain err q' where m: "SearchFeatures_tile e tokens langs mwmId pMwm q = (err, q')"
      by (cases "SearchFeatures_tile e tokens langs mwmId pMwm q")
    have f: "run_frame q q'"
      using run_frame_SearchFeatures_tile [of q e tokens langs mwmId pMwm] m by simp
    show ?thesis
      using True p m f Cons.IH [of q'] run_frame_trans [OF f]
      by (cases err) auto
  qed
qed

lemma run_frame_SearchFeatures: "run_frame q (snd (SearchFeatures e q))"
  by (simp add: SearchFeatures_def SearchFeatures4_def Let_def run_frame_refl
      run_frame_SearchFeatures_tiles split: option.splits)

lemma run_frame_emit_results: "run_frame q (fst (emit_results e q xs))"
proof (induction xs arbitrary: q)
  case Nil
  show ?case by (simp add: run_frame_refl)
next
  case (Cons x xs)
  obtain c q1 where rc: "read_cancel e q = (c, q1)" by (cases "read_cancel e q")
  have f1: "run_frame q q1" using run_frame_read_cancel [of q e] rc by simp
  show ?case
    using rc f1 Cons.IH [of q1] run_frame_trans [OF f1]
    by (cases c) (auto split: prod.splits)
qed

lemma run_frame_clear: "run_frame q (q\<lparr>m_results := r\<rparr>)"
  unfolding run_frame_def
  by (rule exI [of _ "m_cancel q"], rule exI [of _ r], rule exI [of _ "polls q"]) simp

lemma run_frame_FlushResults: "run_frame q (fst (snd (FlushResults e q)))"
proof -
  let ?q1 = "q\<lparr>m_results := map queue_clear (m_results q)\<rparr>"
  have f1: "run_frame q ?q1" by (rule run_frame_clear)
  show ?thesis
    using f1 run_frame_trans [OF f1 run_frame_emit_results]
    by (auto simp add: FlushResults_def FlushResults_ranked_def Let_def
        split: option.splits prod.splits)
qed

lemma run_frame_Search:
  "run_frame (Search_Initialize e query resultsNeeded q)
     (fst (snd (Search e query res resultsNeeded q)))"
proof -
  let ?q1 = "Search_Initialize e query resultsNeeded q"
  obtain c2 q2 where r2: "read_cancel e ?q1 = (c2, q2)" by (cases "read_cancel e ?q1")
  have f2: "run_frame ?q1 q2" using run_frame_read_cancel [of ?q1 e] r2 by simp
  obtain c3 q3 where r3: "read_cancel e q2 = (c3, q3)" by (cases "read_cancel e q2")
  have f3: "run_frame ?q1 q3"
    using run_frame_read_cancel [of q2 e] r3 run_frame_trans [OF f2] by simp
  obtain e4 q4 where r4: "SearchFeatures e q3 = (e4, q4)" by (cases "SearchFeatures e q3")
  have f4: "run_frame ?q1 q4"
    using run_frame_SearchFeatures [of q3 e] r4 run_frame_trans [OF f3] by simp
  obtain c5 q5 where r5: "read_cancel e q4 = (c5, q5)" by (cases "read_cancel e q4")
  have f5: "run_frame ?q1 q5"
    using run_frame_read_cancel [of q4 e] r5 run_frame_trans [OF f4] by simp
  obtain e6 q6 out where r6: "FlushResults e q5 = (e6, q6, out)"
    by (cases "FlushResults e q5") auto
  have f6: "run_frame ?q1 q6"
    using run_frame_FlushResults [of q5 e] r6 run_frame_trans [OF f5] by simp
  show ?thesis
    unfolding Search_def Let_def
    using r2 r3 r4 r5 r6 f2 f3 f4 f5 f6
    by (cases c2; cases c3; cases e4; cases c5) simp_all
qed

subsection \<open>World tiles\<close>

lemma MatchFeaturesInTrie_world:
  "MatchFeaturesInTrie e offsets True mwmID vals q
   = MatchFeaturesInTrie e offsets' True mwmID vals q"
proof (induction vals arbitrary: q)
  case Nil
  show ?case by simp
next
  case (Cons v vals)
  obtain c q1 where rc: "read_cancel e q = (c, q1)" by (cases "read_cancel e q")
  show ?case using rc Cons.IH by (simp add: FeaturesFilter_def)
qed

lemma read_cancel_cache:
  "read_cancel e (q\<lparr>m_offsetsInViewport := C\<rparr>)
   = (fst (read_cancel e q), (snd (read_cancel e q))\<lparr>m_offsetsInViewport := C\<rparr>)"
  by (simp add: read_cancel_def Let_def)

lemma AddResultFromTrie_cache:
  "AddResultFromTrie (q\<lparr>m_offsetsInViewport := C\<rparr>) v m
   = (AddResultFromTrie q v m)\<lparr>m_offsetsInViewport := C\<rparr>"
  by (simp add: AddResultFromTrie_def Let_def)

lemma MatchFeaturesInTrie_cache:
  "MatchFeaturesInTrie e offsets a m vals (q\<lparr>m_offsetsInViewport := C\<rparr>)
   = (fst (MatchFeaturesInTrie e offsets a m vals q),
      (snd (MatchFeaturesInTrie e offsets a m vals q))\<lparr>m_offsetsInViewport := C\<rparr>)"
proof (induction vals arbitrary: q)
  case Nil
  show ?case by simp
next
  case (Cons v vals)
  obtain c q1 where rc: "read_cancel e q = (c, q1)" by (cases "read_cancel e q")
  have rc': "read_cancel e (q\<lparr>m_offsetsInViewport := C\<rparr>) = (c, q1\<lparr>m_offsetsInViewport := C\<rparr>)"
    using rc by (simp add: read_cancel_cache)
  show ?case
  proof (cases "FeaturesFilter offsets a c (m_featureId v)")
    case (Inl err)
    then show ?thesis using rc rc' by simp
  next
    case (Inr admitted)
    then show ?thesis
      using rc rc' Cons.IH [of "AddResultFromTrie q1 v m"] Cons.IH [of q1]
      by (simp add: AddResultFromTrie_cache)
  qed
qed

lemma SearchFeatures_langs_world_cache:
  "(mwmId < length cache') = (mwmId < length (m_offsetsInViewport q))
   \<Longrightarrow> SearchFeatures_langs e tokens langs mwmId pMwm cr True is
         (q\<lparr>m_offsetsInViewport := cache'\<rparr>)
       = (fst (SearchFeatures_langs e tokens langs mwmId pMwm cr True is q),
          (snd (SearchFeatures_langs e tokens langs mwmId pMwm cr True is q))
            \<lparr>m_offsetsInViewport := cache'\<rparr>)"
proof (induction "is" arbitrary: q)
  case Nil
  show ?case by simp
next
  case (Cons i rest)
  show ?case
  proof (cases "fst (trie_m_edge pMwm ! i) < CATEGORIES_LANG e
                \<and> fst (trie_m_edge pMwm ! i) \<in> set langs")
    case False
    then show ?thesis using Cons.IH [OF Cons.prems] by (auto simp add: Let_def)
  next
    case True
    show ?thesis
    proof (cases cr)
      case None
      then show ?thesis using True by (simp add: Let_def)
    next
      case (Some c)
      show ?thesis
      proof (cases "mwmId < length (m_offsetsInViewport q)")
        case False
        then show ?thesis using True Some Cons.prems by (simp add: Let_def)
      next
        case inr: True
        let ?vals = "trie_reached pMwm tokens (m_prefix q) i c"
        obtain err q' where m: "MatchFeaturesInTrie e (m_offsetsInViewport q ! mwmId) True mwmId
                                  ?vals q = (err, q')"
          by (cases "MatchFeaturesInTrie e (m_offsetsInViewport q ! mwmId) True mwmId ?vals q")
        have f: "run_frame q q'"
          using run_frame_MatchFeaturesInTrie [of q e "m_offsetsInViewport q ! mwmId" True mwmId
              ?vals] m by simp
        have c': "m_offsetsInViewport q' = m_offsetsInViewport q"
          using f by (auto simp add: run_frame_def)
        have m': "MatchFeaturesInTrie e (cache' ! mwmId) True mwmId ?vals
                    (q\<lparr>m_offsetsInViewport := cache'\<rparr>)
                  = (err, q'\<lparr>m_offsetsInViewport := cache'\<rparr>)"
          using MatchFeaturesInTrie_cache [where e = e and offsets = "cache' ! mwmId" and a = True
              and m = mwmId and vals = ?vals and q = q and C = cache']
            MatchFeaturesInTrie_world [of e "cache' ! mwmId" mwmId ?vals q
              "m_offsetsInViewport q ! mwmId"] m
          by simp
        have inr': "mwmId < length cache'" using inr Cons.prems by simp
        show ?thesis
        proof (cases err)
          case None
          then show ?thesis
            using True Some inr inr' m m' Cons.IH [of q'] Cons.prems c' by (simp add: Let_def)
        next
          case (Some x)
          then show ?thesis
            using True \<open>cr = Some c\<close> inr inr' m m' by (simp add: Let_def)
        qed
      qed
    qed
  qed
qed

lemma read_cancel_clear:
  "\<not> m_cancel q \<Longrightarrow> \<forall>n. \<not> cancelRequested e n
   \<Longrightarrow> read_cancel e q = (False, q\<lparr>polls := polls q + 1\<rparr>)"
  by (cases q) (simp add: read_cancel_def Let_def)

lemma AddResultFromTrie_polls:
  "AddResultFromTrie (q\<lparr>polls := p\<rparr>) v m = (AddResultFromTrie q v m)\<lparr>polls := p\<rparr>"
  by (simp add: AddResultFromTrie_def Let_def)

lemma foldl_AddResultFromTrie_polls:
  "foldl (\<lambda>s v. AddResultFromTrie s v m) (q\<lparr>polls := p\<rparr>) vals
   = (foldl (\<lambda>s v. AddResultFromTrie s v m) q vals)\<lparr>polls := p\<rparr>"
  by (induction vals arbitrary: q) (simp_all add: AddResultFromTrie_polls)

lemma foldl_AddResultFromTrie_frame:
  "m_cancel (foldl (\<lambda>s v. AddResultFromTrie s v m) q vals) = m_cancel q
   \<and> polls (foldl (\<lambda>s v. AddResultFromTrie s v m) q vals) = polls q
   \<and> m_prefix (foldl (\<lambda>s v. AddResultFromTrie s v m) q vals) = m_prefix q
   \<and> m_offsetsInViewport (foldl (\<lambda>s v. AddResultFromTrie s v m) q vals) = m_offsetsInViewport q"
  by (induction vals arbitrary: q) (simp_all add: AddResultFromTrie_def Let_def)

lemma MatchFeaturesInTrie_world_clear:
  "\<not> m_cancel q \<Longrightarrow> \<forall>n. \<not> cancelRequested e n
   \<Longrightarrow> MatchFeaturesInTrie e offsets True m vals q
       = (None, (foldl (\<lambda>s v. AddResultFromTrie s v m) q vals)\<lparr>polls := polls q + length vals\<rparr>)"
proof (induction vals arbitrary: q)
  case Nil
  show ?case by simp
next
  case (Cons v vals)
  let ?q2 = "AddResultFromTrie (q\<lparr>polls := polls q + 1\<rparr>) v m"
  have rc: "read_cancel e q = (False, q\<lparr>polls := polls q + 1\<rparr>)"
    using Cons.prems by (rule read_cancel_clear)
  have c2: "\<not> m_cancel ?q2" "polls ?q2 = polls q + 1"
    using Cons.prems(1) by (simp_all add: AddResultFromTrie_def Let_def)
  have "MatchFeaturesInTrie e offsets True m vals ?q2
        = (None, (foldl (\<lambda>s v. AddResultFromTrie s v m) ?q2 vals)
                   \<lparr>polls := polls ?q2 + length vals\<rparr>)"
    using Cons.IH [OF c2(1) Cons.prems(2)] .
  then show ?case
    using rc c2(2)
    by (simp add: FeaturesFilter_def AddResultFromTrie_polls foldl_AddResultFromTrie_polls)
qed

lemma SearchFeatures_langs_world_clear:
  "\<not> m_cancel q \<Longrightarrow> \<forall>n. \<not> cancelRequested e n \<Longrightarrow> mwmId < length (m_offsetsInViewport q)
   \<Longrightarrow> SearchFeatures_langs e tokens langs mwmId pMwm (Some c) True is q
       = (None, (foldl (\<lambda>s v. AddResultFromTrie s v mwmId) q
                   (reached_in_tile e tokens langs pMwm (m_prefix q) c is))
                 \<lparr>polls := polls q + length (reached_in_tile e tokens langs pMwm (m_prefix q) c is)\<rparr>)"
proof (induction "is" arbitrary: q)
  case Nil
  show ?case by (simp add: reached_in_tile_def)
next
  case (Cons i rest)
  show ?case
  proof (cases "fst (trie_m_edge pMwm ! i) < CATEGORIES_LANG e
                \<and> fst (trie_m_edge pMwm ! i) \<in> set langs")
    case False
    then show ?thesis using Cons.IH [OF Cons.prems] by (auto simp add: Let_def reached_in_tile_def)
  next
    case True
    let ?f = "\<lambda>s v. AddResultFromTrie s v mwmId"
    let ?vals = "trie_reached pMwm tokens (m_prefix q) i c"
    let ?q' = "(foldl ?f q ?vals)\<lparr>polls := polls q + length ?vals\<rparr>"
    let ?R = "reached_in_tile e tokens langs pMwm (m_prefix q) c rest"
    have m: "MatchFeaturesInTrie e (m_offsetsInViewport q ! mwmId) True mwmId ?vals q = (None, ?q')"
      using Cons.prems(1,2) by (rule MatchFeaturesInTrie_world_clear)
    have fr: "\<not> m_cancel ?q'" "mwmId < length (m_offsetsInViewport ?q')"
      "m_prefix ?q' = m_prefix q" "polls ?q' = polls q + length ?vals"
      using Cons.prems(1,3) foldl_AddResultFromTrie_frame [of mwmId q ?vals] by simp_all
    have ih: "SearchFeatures_langs e tokens langs mwmId pMwm (Some c) True rest ?q'
              = (None, (foldl ?f ?q' ?R)\<lparr>polls := polls ?q' + length ?R\<rparr>)"
      using Cons.IH [OF fr(1) Cons.prems(2) fr(2)] fr(3) by simp
    have r: "reached_in_tile e tokens langs pMwm (m_prefix q) c (i # rest) = ?vals @ ?R"
      using True by (simp add: reached_in_tile_def)
    have "foldl ?f ?q' ?R = (foldl ?f q (?vals @ ?R))\<lparr>polls := polls q + length ?vals\<rparr>"
      by (simp add: foldl_AddResultFromTrie_polls)
    then show ?thesis
      using True Cons.prems(3) m ih fr(4) r by (simp add: Let_def)
  qed
qed

text \<open>
  C2. For a tile of type world, \<open>SearchFeatures\<close> builds the filter with
  \<open>isWorld\<close> true (658, 673), and the filter then admits every offset the matcher
  reaches, whatever the viewport offset cache holds.

  \<^item> Under every schedule of the cancel flag, the run of \<open>SearchFeatures\<close> over the
    tile is the same with any other cache in the place of the query's, provided the
    other cache has an entry for the tile exactly when the query's has: the same
    outcome, the same queues. (The reference to the tile's entry is formed whatever the
    type of the tile, so a cache that is too short is an error for a world tile too.)
  \<^item> While the cancel flag stays clear, with an entry for the tile in the cache and a
    categories edge in the trie, the run ends without an exception and has handed every
    value reached below the language edges, in order, to \<open>AddResultFromTrie\<close>: no
    offset is rejected. (With the flag set the filter throws, for world tiles as for
    the others.)
  \<^item> The cache fill, \<open>UpdateViewportOffsets\<close>, leaves the entry of a world tile
    empty: it collects offsets for country tiles only.
\<close>

theorem world_tiles_bypass_cache:
  "header_GetType pMwm = world \<longrightarrow>
     ((mwmId < length cache') = (mwmId < length (m_offsetsInViewport q)) \<longrightarrow>
        SearchFeatures_tile e tokens langs mwmId pMwm (q\<lparr>m_offsetsInViewport := cache'\<rparr>)
          = (fst (SearchFeatures_tile e tokens langs mwmId pMwm q),
             (snd (SearchFeatures_tile e tokens langs mwmId pMwm q))
               \<lparr>m_offsetsInViewport := cache'\<rparr>))
     \<and> (\<not> m_cancel q \<and> (\<forall>n. \<not> cancelRequested e n)
          \<and> mwmId < length (m_offsetsInViewport q)
          \<and> find_edge (CATEGORIES_LANG e) (trie_m_edge pMwm) 0 = Some c \<longrightarrow>
        SearchFeatures_tile e tokens langs mwmId pMwm q
          = (None,
             (foldl (\<lambda>s v. AddResultFromTrie s v mwmId) q
                (reached_in_tile e tokens langs pMwm (m_prefix q) c
                   [0..<length (trie_m_edge pMwm)]))
             \<lparr>polls := polls q
                + length (reached_in_tile e tokens langs pMwm (m_prefix q) c
                            [0..<length (trie_m_edge pMwm)])\<rparr>))
     \<and> (m_pIndex q = Some mwmInfo \<and> mwmId < length mwmInfo
          \<and> lock_GetValue (mwmInfo ! mwmId) = Some pMwm \<longrightarrow>
        m_offsetsInViewport (snd (UpdateViewportOffsets e q)) ! mwmId = [])"
proof (intro impI conjI)
  assume w: "header_GetType pMwm = world"
  assume h: "(mwmId < length cache') = (mwmId < length (m_offsetsInViewport q))"
  show "SearchFeatures_tile e tokens langs mwmId pMwm (q\<lparr>m_offsetsInViewport := cache'\<rparr>)
          = (fst (SearchFeatures_tile e tokens langs mwmId pMwm q),
             (snd (SearchFeatures_tile e tokens langs mwmId pMwm q))
               \<lparr>m_offsetsInViewport := cache'\<rparr>)"
    using w SearchFeatures_langs_world_cache [OF h]
    by (simp add: SearchFeatures_tile_def Let_def)
next
  assume w: "header_GetType pMwm = world"
  assume h: "\<not> m_cancel q \<and> (\<forall>n. \<not> cancelRequested e n)
          \<and> mwmId < length (m_offsetsInViewport q)
          \<and> find_edge (CATEGORIES_LANG e) (trie_m_edge pMwm) 0 = Some c"
  show "SearchFeatures_tile e tokens langs mwmId pMwm q
          = (None,
             (foldl (\<lambda>s v. AddResultFromTrie s v mwmId) q
                (reached_in_tile e tokens langs pMwm (m_prefix q) c
                   [0..<length (trie_m_edge pMwm)]))
             \<lparr>polls := polls q
                + length (reached_in_tile e tokens langs pMwm (m_prefix q) c
                            [0..<length (trie_m_edge pMwm)])\<rparr>)"
    using w h SearchFeatures_langs_world_clear [of q e mwmId tokens langs pMwm c
        "[0..<length (trie_m_edge pMwm)]"]
    by (simp add: SearchFeatures_tile_def Let_def)
next
  assume w: "header_GetType pMwm = world"
  assume h: "m_pIndex q = Some mwmInfo \<and> mwmId < length mwmInfo
          \<and> lock_GetValue (mwmInfo ! mwmId) = Some pMwm"
  show "m_offsetsInViewport (snd (UpdateViewportOffsets e q)) ! mwmId = []"
    using w h by (simp add: UpdateViewportOffsets_entries tile_offsets_def)
qed

theorem world_tiles_bypass_cache_witness:
  "header_GetType example_world_mwm = world
   \<and> find_edge (CATEGORIES_LANG example_env) (trie_m_edge example_world_mwm) 0 = Some 1
   \<and> map m_featureId
       (reached_in_tile example_env [] [1] example_world_mwm (m_prefix example_world_query) 1
          [0..<length (trie_m_edge example_world_mwm)]) = [5, 7, 6]
   \<and> fst (SearchFeatures_tile example_env [] [1] 0 example_world_mwm
            (example_world_query\<lparr>m_offsetsInViewport := [[7]]\<rparr>)) = None
   \<and> map (\<lambda>qu. map GetID (m_queue qu))
       (m_results (snd (SearchFeatures_tile example_env [] [1] 0 example_world_mwm
                          (example_world_query\<lparr>m_offsetsInViewport := [[7]]\<rparr>))))
     = [[(5, 0), (7, 0), (6, 0)], [(5, 0), (7, 0), (6, 0)], [(5, 0), (7, 0), (6, 0)]]
   \<and> m_offsetsInViewport (snd (UpdateViewportOffsets example_env example_world_query)) ! 0 = []"
proof -
  let ?w = example_world_mwm
  let ?q = example_world_query
  let ?tiles = "[\<lparr>m_limitRect = 1, lock_GetValue = Some ?w, lock_GetCountryName = []\<rparr>]"
  let ?R = "reached_in_tile example_env [] [1] ?w (m_prefix ?q) 1 [0..<length (trie_m_edge ?w)]"
  have w: "header_GetType ?w = world" by (simp add: example_world_mwm_def)
  have c: "find_edge (CATEGORIES_LANG example_env) (trie_m_edge ?w) 0 = Some 1" by code_simp
  have n: "\<forall>n. \<not> cancelRequested example_env n" by (simp add: example_env_def)
  have q: "\<not> m_cancel ?q" "m_offsetsInViewport ?q = [[]]" "m_pIndex ?q = Some ?tiles"
    by (simp_all add: example_world_query_def Search_Initialize_def Let_def example_query_def)
  have r: "map m_featureId ?R = [5, 7, 6]" by code_simp
  have v: "map (\<lambda>qu. map GetID (m_queue qu))
             (m_results (foldl (\<lambda>s v. AddResultFromTrie s v 0) ?q ?R))
           = [[(5, 0), (7, 0), (6, 0)], [(5, 0), (7, 0), (6, 0)], [(5, 0), (7, 0), (6, 0)]]"
    by code_simp
  show ?thesis
    using world_tiles_bypass_cache [where pMwm = ?w and e = example_env and tokens = "[]"
        and langs = "[1]" and mwmId = 0 and q = ?q and cache' = "[[7]]" and c = 1
        and mwmInfo = ?tiles] w c n q r v
    by simp
qed

text \<open>
  The type of the tile is what makes the difference: the same run over the country
  tile, with the same cache, keeps only the offset 7 that the cache entry holds.
\<close>

lemma country_tile_filtered_by_cache:
  "map (\<lambda>qu. map GetID (m_queue qu))
     (m_results (snd (SearchFeatures_tile example_env [] [1] 0 example_mwm
                        (example_world_query\<lparr>m_offsetsInViewport := [[7]]\<rparr>))))
   = [[(7, 0)], [(7, 0)], [(7, 0)]]"
  by code_simp

subsection \<open>The prefix\<close>

lemma split_tokens_nonempty: "[] \<notin> set (split_tokens isDelim cur u)"
  by (induction u arbitrary: cur) auto

lemma SplitUniString_last_nonempty:
  "SplitUniString u isDelim \<noteq> [] \<Longrightarrow> last (SplitUniString u isDelim) \<noteq> []"
  using split_tokens_nonempty [of isDelim "[]" u] last_in_set [of "SplitUniString u isDelim"]
  unfolding SplitUniString_def by metis

lemma run_frame_tokens: "run_frame q q' \<Longrightarrow> m_prefix q' = m_prefix q \<and> m_tokens q' = m_tokens q"
  by (auto simp add: run_frame_def)

text \<open>
  C3. With \<open>toks\<close> the tokens obtained by splitting the normalized query: after the
  initialisation of \<open>Search\<close> the prefix is not empty exactly when the last code point
  of the raw query is not a delimiter and \<open>toks\<close> is not empty; the prefix is then the
  last token, which is removed from the list (the list is then cut to 31 tokens);
  otherwise the prefix is empty and no token is removed. The rest of \<open>Search\<close>
  changes neither the prefix nor the tokens.
\<close>

theorem prefix_rule:
  "let toks = SplitUniString (NormalizeAndSimplifyString e query) (delims e);
       taken = (toks \<noteq> [] \<and> \<not> delims e (LastUniChar e query));
       q1 = Search_Initialize e query resultsNeeded q;
       q' = fst (snd (Search e query res resultsNeeded q))
   in (m_prefix q1 \<noteq> [] \<longleftrightarrow> taken)
      \<and> m_prefix q1 = (if taken then last toks else [])
      \<and> m_tokens q1 = take 31 (if taken then butlast toks else toks)
      \<and> m_prefix q' = m_prefix q1 \<and> m_tokens q' = m_tokens q1"
proof -
  let ?toks = "SplitUniString (NormalizeAndSimplifyString e query) (delims e)"
  have a: "m_prefix (Search_Initialize e query resultsNeeded q)
           = (if ?toks \<noteq> [] \<and> \<not> delims e (LastUniChar e query) then last ?toks else [])"
    by (simp add: Search_Initialize_def Let_def)
  have b: "m_tokens (Search_Initialize e query resultsNeeded q)
           = take 31 (if ?toks \<noteq> [] \<and> \<not> delims e (LastUniChar e query)
                      then butlast ?toks else ?toks)"
    by (simp add: Search_Initialize_def Let_def)
  have c: "m_prefix (fst (snd (Search e query res resultsNeeded q)))
             = m_prefix (Search_Initialize e query resultsNeeded q)
           \<and> m_tokens (fst (snd (Search e query res resultsNeeded q)))
             = m_tokens (Search_Initialize e query resultsNeeded q)"
    by (rule run_frame_tokens [OF run_frame_Search])
  show ?thesis
    using c SplitUniString_last_nonempty [of "NormalizeAndSimplifyString e query" "delims e"]
    by (simp add: Let_def a b)
qed

text \<open>
  Two runs on the small index: the query \<open>cafe wi\<close> gives the token \<open>cafe\<close> and
  the prefix \<open>wi\<close>; the query \<open>cafe\<close> followed by a space gives the token and no
  prefix.
\<close>

lemma prefix_rule_example:
  "m_tokens (Search_Initialize example_env ''cafe wi'' 10 example_query) = [[99, 97, 102, 101]]
   \<and> m_prefix (Search_Initialize example_env ''cafe wi'' 10 example_query) = [119, 105]
   \<and> m_tokens (Search_Initialize example_env ''cafe '' 10 example_query) = [[99, 97, 102, 101]]
   \<and> m_prefix (Search_Initialize example_env ''cafe '' 10 example_query) = []"
  by code_simp

subsection \<open>When the cache is rebuilt\<close>

lemma run_frame_cache:
  "run_frame q q' \<Longrightarrow> m_offsetsInViewport q' = m_offsetsInViewport q
     \<and> m_bOffsetsCacheIsValid q' = m_bOffsetsCacheIsValid q
     \<and> m_viewport q' = m_viewport q \<and> m_viewportExtended q' = m_viewportExtended q"
  by (auto simp add: run_frame_def)

lemma Search_Initialize_cache:
  "m_offsetsInViewport (Search_Initialize e query n q) = m_offsetsInViewport q
   \<and> m_bOffsetsCacheIsValid (Search_Initialize e query n q) = m_bOffsetsCacheIsValid q
   \<and> m_viewport (Search_Initialize e query n q) = m_viewport q
   \<and> m_viewportExtended (Search_Initialize e query n q) = m_viewportExtended q
   \<and> polls (Search_Initialize e query n q) = polls q
   \<and> m_cancel (Search_Initialize e query n q) = False"
  by (simp add: Search_Initialize_def Let_def)

text \<open>
  C4, as the code has it. \<open>SetViewport\<close> with a rectangle different from the current
  viewport rebuilds the cache itself, at once: on return (with an index) the viewport
  is the new one, the cache is marked valid and its entries are those of the new
  viewport. \<open>Search\<close> never rebuilds the cache: the cache, its validity flag and the
  viewport are after \<open>Search\<close> what they were before, whether the cache was valid or
  not.
\<close>

theorem cache_rebuilt_by_SetViewport:
  "(m_viewport q \<noteq> viewport \<and> m_pIndex q = Some mwmInfo \<longrightarrow>
      (let q' = snd (SetViewport e q viewport)
       in fst (SetViewport e q viewport) = None
          \<and> m_viewport q' = viewport
          \<and> m_bOffsetsCacheIsValid q'
          \<and> m_offsetsInViewport q'
              = map (tile_offsets e viewport (rect_Scale e viewport 3)) mwmInfo))
   \<and> (let q' = fst (snd (Search e query res resultsNeeded q))
      in m_offsetsInViewport q' = m_offsetsInViewport q
         \<and> m_bOffsetsCacheIsValid q' = m_bOffsetsCacheIsValid q
         \<and> m_viewport q' = m_viewport q)"
proof -
  have a: "m_viewport q \<noteq> viewport \<and> m_pIndex q = Some mwmInfo \<longrightarrow>
      (let q' = snd (SetViewport e q viewport)
       in fst (SetViewport e q viewport) = None
          \<and> m_viewport q' = viewport
          \<and> m_bOffsetsCacheIsValid q'
          \<and> m_offsetsInViewport q'
              = map (tile_offsets e viewport (rect_Scale e viewport 3)) mwmInfo)"
    by (simp add: SetViewport_def UpdateViewportOffsets_entries Let_def)
  have b: "let q' = fst (snd (Search e query res resultsNeeded q))
      in m_offsetsInViewport q' = m_offsetsInViewport q
         \<and> m_bOffsetsCacheIsValid q' = m_bOffsetsCacheIsValid q
         \<and> m_viewport q' = m_viewport q"
    unfolding Let_def
    using run_frame_cache [OF run_frame_Search [where e = e and query = query
          and resultsNeeded = resultsNeeded and q = q and res = res]]
      Search_Initialize_cache [of e query resultsNeeded q]
    by simp
  show ?thesis using a b by blast
qed

theorem cache_rebuilt_by_SetViewport_witness:
  "m_viewport example_query \<noteq> 1
   \<and> m_offsetsInViewport (snd (SetViewport example_env example_query 1)) = [[5, 7, 7]]
   \<and> m_offsetsInViewport
       (fst (snd (Search example_env ''caf'' [] 10 (snd (SetViewport example_env example_query 1)))))
       = [[5, 7, 7]]"
proof -
  have h: "m_viewport example_query \<noteq> 1 \<and> m_pIndex example_query
       = Some [\<lparr>m_limitRect = 1, lock_GetValue = Some example_mwm,
                 lock_GetCountryName = ''Austria''\<rparr>]"
    by (simp add: example_query_def)
  have t: "tile_offsets example_env 1 (rect_Scale example_env 1 3)
         \<lparr>m_limitRect = 1, lock_GetValue = Some example_mwm, lock_GetCountryName = ''Austria''\<rparr>
        = [5, 7, 7]"
    by (simp add: tile_offsets_def example_env_def example_mwm_def)
  show ?thesis
    using cache_rebuilt_by_SetViewport [of example_query 1
        "[\<lparr>m_limitRect = 1, lock_GetValue = Some example_mwm,
                 lock_GetCountryName = ''Austria''\<rparr>]" example_env "''caf''" "[]" 10] h t
      cache_rebuilt_by_SetViewport [of "snd (SetViewport example_env example_query 1)" 1
        "[]" example_env "''caf''" "[]" 10]
    by (simp add: Let_def)
qed

text \<open>
  The sentence of the specification fails as worded: in the small index
  \<open>SetViewport\<close> with a new rectangle fills the cache and marks it valid, and
  \<open>Search\<close> on the query object whose cache was never built leaves it unbuilt and
  not valid.
\<close>

theorem cache_not_lazy:
  "m_viewport example_query \<noteq> 1
   \<and> m_offsetsInViewport example_query = []
   \<and> m_offsetsInViewport (snd (SetViewport example_env example_query 1)) = [[5, 7, 7]]
   \<and> m_bOffsetsCacheIsValid (snd (SetViewport example_env example_query 1))
   \<and> m_offsetsInViewport (fst (snd (Search example_env ''caf'' [] 10 example_query))) = []
   \<and> \<not> m_bOffsetsCacheIsValid (fst (snd (Search example_env ''caf'' [] 10 example_query)))"
  by code_simp

subsection \<open>Cancellation before and after the reset\<close>

lemma Search_Initialize_ignores_cancel:
  "Search_Initialize e query n (q\<lparr>m_cancel := b\<rparr>) = Search_Initialize e query n q"
  by (simp add: Search_Initialize_def Let_def)

lemma Search_ignores_cancel: "Search e query res n (q\<lparr>m_cancel := b\<rparr>) = Search e query res n q"
  by (simp add: Search_def Search_Initialize_ignores_cancel)

lemma SuggestStrings_no_features: "list_all (\<lambda>r. \<not> is_FeatureResult r) (SuggestStrings e q)"
  by (auto simp add: SuggestStrings_def MatchForSuggestions_filter list_all_iff Let_def
      split: option.splits)

text \<open>
  C6, as the code has it. \<open>Search\<close> resets the cancel flag on entry, so a flag set
  before the call has no effect: the call does the same as with the flag clear. When
  another thread sets the flag after the reset and before the first or the second read
  of the flag (the checks that precede \<open>SuggestStrings\<close> and \<open>SearchFeatures\<close>),
  \<open>Search\<close> returns normally, the results already in the sink stay, and no feature
  result is added.
\<close>

theorem cancel_after_reset:
  "Search e query res n (q\<lparr>m_cancel := True\<rparr>) = Search e query res n (q\<lparr>m_cancel := False\<rparr>)
   \<and> (cancelRequested e (polls q) \<or> cancelRequested e (polls q + 1) \<longrightarrow>
        fst (Search e query res n q) = None
        \<and> take (length res) (snd (snd (Search e query res n q))) = res
        \<and> list_all (\<lambda>r. \<not> is_FeatureResult r)
            (drop (length res) (snd (snd (Search e query res n q)))))"
proof -
  let ?q1 = "Search_Initialize e query n q"
  have p: "polls ?q1 = polls q" "m_cancel ?q1 = False"
    by (simp_all add: Search_Initialize_def Let_def)
  have r: "read_cancel e ?q1 = (cancelRequested e (polls q),
             ?q1\<lparr>m_cancel := cancelRequested e (polls q), polls := polls q + 1\<rparr>)"
    using p by (simp add: read_cancel_def Let_def)
  let ?q2 = "?q1\<lparr>m_cancel := cancelRequested e (polls q), polls := polls q + 1\<rparr>"
  have r2: "fst (read_cancel e ?q2)
            = (cancelRequested e (polls q) \<or> cancelRequested e (polls q + 1))"
    by (simp add: read_cancel_def Let_def)
  have b: "fst (Search e query res n q) = None
        \<and> take (length res) (snd (snd (Search e query res n q))) = res
        \<and> list_all (\<lambda>r. \<not> is_FeatureResult r)
            (drop (length res) (snd (snd (Search e query res n q))))"
    if c: "cancelRequested e (polls q) \<or> cancelRequested e (polls q + 1)"
  proof (cases "cancelRequested e (polls q)")
    case True
    then show ?thesis
      unfolding Search_def Let_def r by (simp split: option.splits)
  next
    case False
    obtain c3 q3 where r3: "read_cancel e ?q2 = (c3, q3)" by (cases "read_cancel e ?q2")
    have "c3" using r2 r3 c False by simp
    then show ?thesis
      unfolding Search_def Let_def r using False r3 SuggestStrings_no_features [of e ?q2]
      by (simp split: option.splits)
  qed
  show ?thesis using b by (simp add: Search_ignores_cancel)
qed

theorem cancel_after_reset_witness:
  "cancelRequested (example_env\<lparr>cancelRequested := (\<lambda>n. n = 1)\<rparr>)
     (polls (snd (SetViewport example_env example_query 1)) + 1)
   \<and> snd (snd (Search (example_env\<lparr>cancelRequested := (\<lambda>n. n = 1)\<rparr>) ''caf'' [] 10
                  (snd (SetViewport example_env example_query 1))))
      = [SuggestResult ''cafe'' 3]"
proof -
  have "snd (snd (Search (example_env\<lparr>cancelRequested := (\<lambda>n. n = 1)\<rparr>) ''caf'' [] 10
                  (snd (SetViewport example_env example_query 1))))
      = [SuggestResult ''cafe'' 3]"
    by code_simp
  moreover have "polls (snd (SetViewport example_env example_query 1)) = 0"
    by code_simp
  ultimately show ?thesis
    using cancel_after_reset [of "example_env\<lparr>cancelRequested := (\<lambda>n. n = 1)\<rparr>" "''caf''"
        "[]" 10 "snd (SetViewport example_env example_query 1)"]
    by simp
qed

text \<open>
  The sentence of the specification fails as worded: with the flag set before
  \<open>Search\<close> is entered, the search over the small index adds feature results.
\<close>

theorem cancel_before_entry_is_reset:
  "m_cancel ((snd (SetViewport example_env example_query 1))\<lparr>m_cancel := True\<rparr>)
   \<and> filter is_FeatureResult
       (snd (snd (Search example_env ''caf'' [] 10
                    ((snd (SetViewport example_env example_query 1))\<lparr>m_cancel := True\<rparr>))))
      \<noteq> []"
  by code_simp

subsection \<open>The candidate queues\<close>

lemma queue_top_in: "queue_top cmp x xs \<in> set (x # xs)"
  unfolding queue_top_def by (induction xs arbitrary: x) auto

lemma distinct_map_remove1: "distinct (map f xs) \<Longrightarrow> distinct (map f (remove1 x xs))"
proof (induction xs)
  case Nil
  then show ?case by simp
next
  case (Cons a xs)
  have "set (remove1 x xs) \<subseteq> set xs" by (rule set_remove1_subset)
  then show ?case using Cons by auto
qed

lemma length_remove1_mem: "x \<in> set xs \<Longrightarrow> Suc (length (remove1 x xs)) = length xs"
  by (induction xs) auto

lemma set_map_remove1: "f y \<notin> f ` set xs \<Longrightarrow> f y \<notin> f ` set (remove1 x xs)"
  using set_remove1_subset [of x xs] by auto

lemma unat_twice_le: "unat (2 * n :: 32 word) \<le> 2 * unat n"
  by (simp add: unat_word_ariths)

lemma find_None_keys: "find (EqualFeature res) xs = None \<longleftrightarrow> GetID res \<notin> GetID ` set xs"
  by (auto simp add: find_None_iff EqualFeature_def)

lemma queue_push_ok:
  assumes "queue_ok n qu" "GetID t \<notin> GetID ` set (m_queue qu)"
  shows "queue_ok n (queue_push qu t)"
proof (cases "m_maxSize qu = 0 \<or> length (m_queue qu) < m_maxSize qu")
  case True
  then show ?thesis
    using assms unat_twice_le [of n] by (auto simp add: queue_ok_def queue_push_def)
next
  case False
  then obtain x xs where xs: "m_queue qu = x # xs"
    using assms(1) by (cases "m_queue qu") (auto simp add: queue_ok_def)
  let ?top = "queue_top (m_compare qu) x xs"
  have l: "Suc (length (remove1 ?top (x # xs))) = length (x # xs)"
    by (rule length_remove1_mem [OF queue_top_in])
  have d: "distinct (map GetID (remove1 ?top (x # xs)))"
    using assms(1) xs distinct_map_remove1 [of GetID "x # xs" ?top] by (simp add: queue_ok_def)
  have m: "GetID t \<notin> GetID ` set (remove1 ?top (x # xs))"
    using assms(2) xs set_map_remove1 [of GetID t "x # xs" ?top] by simp
  have "queue_ok n (qu\<lparr>m_queue := remove1 ?top (m_queue qu) @ [t]\<rparr>)"
    using assms(1) l d m unfolding queue_ok_def xs by simp
  then show ?thesis
    using False assms(1) xs
    by (simp add: queue_push_def Let_def)
qed

lemma AddResultFromTrie_ok: "queues_ok n q \<Longrightarrow> queues_ok n (AddResultFromTrie q val mwmID)"
  by (auto simp add: queues_ok_def AddResultFromTrie_def Let_def list_all_iff find_None_keys
      intro: queue_push_ok)

lemma Search_Initialize_ok: "queues_ok n (Search_Initialize e query n q)"
  by (simp add: queues_ok_def Search_Initialize_def Let_def list_all_iff queue_ok_def
      QueueT_ctor_def)

lemma read_cancel_ok: "queues_ok n q \<Longrightarrow> queues_ok n (snd (read_cancel e q))"
  by (simp add: queues_ok_def read_cancel_def Let_def)

lemma MatchFeaturesInTrie_ok:
  "queues_ok n q \<Longrightarrow> queues_ok n (snd (MatchFeaturesInTrie e offsets alwaysTrue mwmID vals q))"
proof (induction vals arbitrary: q)
  case Nil
  then show ?case by simp
next
  case (Cons v vals)
  obtain c q1 where rc: "read_cancel e q = (c, q1)" by (cases "read_cancel e q")
  have f1: "queues_ok n q1" using read_cancel_ok [OF Cons.prems, of e] rc by simp
  show ?case
  proof (cases "FeaturesFilter offsets alwaysTrue c (m_featureId v)")
    case (Inl err)
    then show ?thesis using rc f1 by simp
  next
    case (Inr admitted)
    let ?q2 = "if admitted then AddResultFromTrie q1 v mwmID else q1"
    have "queues_ok n ?q2" using f1 AddResultFromTrie_ok by auto
    then show ?thesis using rc Inr Cons.IH [of ?q2] by auto
  qed
qed

lemma SearchFeatures_langs_ok:
  "queues_ok n q
   \<Longrightarrow> queues_ok n (snd (SearchFeatures_langs e tokens langs mwmId pMwm cr isWorld is q))"
proof (induction "is" arbitrary: q)
  case Nil
  then show ?case by simp
next
  case (Cons i rest)
  show ?case
  proof (cases "fst (trie_m_edge pMwm ! i) < CATEGORIES_LANG e
                \<and> fst (trie_m_edge pMwm ! i) \<in> set langs")
    case False
    then show ?thesis using Cons.IH [OF Cons.prems] by (auto simp add: Let_def)
  next
    case True
    show ?thesis
    proof (cases cr)
      case None
      then show ?thesis using True Cons.prems by (simp add: Let_def)
    next
      case (Some c)
      show ?thesis
      proof (cases "mwmId < length (m_offsetsInViewport q)")
        case False
        then show ?thesis using True Some Cons.prems by (simp add: Let_def)
      next
        case inr: True
        obtain err q' where m: "MatchFeaturesInTrie e (m_offsetsInViewport q ! mwmId) isWorld mwmId
                          (trie_reached pMwm tokens (m_prefix q) i c) q = (err, q')"
          by (cases "MatchFeaturesInTrie e (m_offsetsInViewport q ! mwmId) isWorld mwmId
                          (trie_reached pMwm tokens (m_prefix q) i c) q")
        have f: "queues_ok n q'"
          using MatchFeaturesInTrie_ok [OF Cons.prems, of e "m_offsetsInViewport q ! mwmId" isWorld
              mwmId "trie_reached pMwm tokens (m_prefix q) i c"] m by simp
        show ?thesis
          using True Some inr m f Cons.IH [OF f]
          by (cases err) (simp_all add: Let_def)
      qed
    qed
  qed
qed

lemma SearchFeatures_tiles_ok:
  "queues_ok n q
   \<Longrightarrow> queues_ok n (snd (SearchFeatures_tiles e tokens mwmInfo langs onlyInViewport ids q))"
proof (induction ids arbitrary: q)
  case Nil
  then show ?case by simp
next
  case (Cons mwmId rest)
  show ?case
  proof (cases "(\<not> onlyInViewport
         \<or> IsIntersect e (m_viewportExtended q) (m_limitRect (mwmInfo ! mwmId)))
         \<and> (\<exists>pMwm. lock_GetValue (mwmInfo ! mwmId) = Some pMwm \<and> IsReaderExist_SEARCH_INDEX pMwm)")
    case False
    then show ?thesis using Cons.IH [OF Cons.prems] by (auto split: option.splits)
  next
    case True
    then obtain pMwm where p: "lock_GetValue (mwmInfo ! mwmId) = Some pMwm"
      "IsReaderExist_SEARCH_INDEX pMwm" by blast
    obtain err q' where m: "SearchFeatures_tile e tokens langs mwmId pMwm q = (err, q')"
      by (cases "SearchFeatures_tile e tokens langs mwmId pMwm q")
    have f: "queues_ok n q'"
      using SearchFeatures_langs_ok [OF Cons.prems] m
      by (simp add: SearchFeatures_tile_def Let_def) (metis snd_conv)
    show ?thesis
      using True p m f Cons.IH [OF f]
      by (cases err) auto
  qed
qed

lemma SearchFeatures_ok: "queues_ok n q \<Longrightarrow> queues_ok n (snd (SearchFeatures e q))"
  by (simp add: SearchFeatures_def SearchFeatures4_def Let_def SearchFeatures_tiles_ok
      split: option.splits)

lemma queues_ok_cleared:
  "queues_ok n q \<Longrightarrow> queues_ok n (q\<lparr>m_results := map queue_clear (m_results q)\<rparr>)"
  by (auto simp add: queues_ok_def list_all_iff queue_ok_def queue_clear_def)

lemma run_frame_queues_ok:
  "run_frame q q' \<Longrightarrow> m_results q' = m_results q \<Longrightarrow> queues_ok n q \<Longrightarrow> queues_ok n q'"
  by (simp add: queues_ok_def)

lemma emit_results_m_results: "m_results (fst (emit_results e q xs)) = m_results q"
proof (induction xs arbitrary: q)
  case Nil
  show ?case by simp
next
  case (Cons x xs)
  obtain c q1 where rc: "read_cancel e q = (c, q1)" by (cases "read_cancel e q")
  have "m_results q1 = m_results q" using rc by (auto simp add: read_cancel_def Let_def)
  then show ?case using rc Cons.IH [of q1] by (cases c) (auto split: prod.splits)
qed

lemma FlushResults_ok: "queues_ok n q \<Longrightarrow> queues_ok n (fst (snd (FlushResults e q)))"
  using queues_ok_cleared [of n q]
  by (auto simp add: FlushResults_def FlushResults_ranked_def Let_def queues_ok_def
      emit_results_m_results split: option.splits prod.splits)

lemma Search_ok: "queues_ok n (fst (snd (Search e query res n q)))"
proof -
  let ?q1 = "Search_Initialize e query n q"
  have f1: "queues_ok n ?q1" by (rule Search_Initialize_ok)
  obtain c2 q2 where r2: "read_cancel e ?q1 = (c2, q2)" by (cases "read_cancel e ?q1")
  have f2: "queues_ok n q2" using read_cancel_ok [OF f1, of e] r2 by simp
  obtain c3 q3 where r3: "read_cancel e q2 = (c3, q3)" by (cases "read_cancel e q2")
  have f3: "queues_ok n q3" using read_cancel_ok [OF f2, of e] r3 by simp
  obtain e4 q4 where r4: "SearchFeatures e q3 = (e4, q4)" by (cases "SearchFeatures e q3")
  have f4: "queues_ok n q4" using SearchFeatures_ok [OF f3, of e] r4 by simp
  obtain c5 q5 where r5: "read_cancel e q4 = (c5, q5)" by (cases "read_cancel e q4")
  have f5: "queues_ok n q5" using read_cancel_ok [OF f4, of e] r5 by simp
  obtain e6 q6 out where r6: "FlushResults e q5 = (e6, q6, out)"
    by (cases "FlushResults e q5") auto
  have f6: "queues_ok n q6" using FlushResults_ok [OF f5, of e] r6 by simp
  show ?thesis
    unfolding Search_def Let_def
    using r2 r3 r4 r5 r6 f2 f3 f4 f5 f6
    by (cases c2; cases c3; cases e4; cases c5) simp_all
qed

text \<open>
  C7. The three queues that \<open>Search\<close> sets up hold no \<open>GetID\<close> twice and at most
  \<open>2 * resultsNeeded\<close> elements each; \<open>AddResultFromTrie\<close> keeps this (it pushes
  into a queue only when no element of the queue has the same \<open>GetID\<close>), so it holds
  after any sequence of hits added to the fresh queues, after feature matching, and at
  the end of \<open>Search\<close>.
\<close>

theorem queues_hold_a_feature_once:
  "queues_ok resultsNeeded (Search_Initialize e query resultsNeeded q)
   \<and> (queues_ok resultsNeeded q' \<longrightarrow> queues_ok resultsNeeded (AddResultFromTrie q' val mwmID))
   \<and> queues_ok resultsNeeded
       (foldl (\<lambda>s hit. AddResultFromTrie s (fst hit) (snd hit))
          (Search_Initialize e query resultsNeeded q) hits)
   \<and> queues_ok resultsNeeded
       (snd (SearchFeatures e (Search_Initialize e query resultsNeeded q)))
   \<and> queues_ok resultsNeeded (fst (snd (Search e query res resultsNeeded q)))"
proof -
  have "queues_ok resultsNeeded (foldl (\<lambda>s hit. AddResultFromTrie s (fst hit) (snd hit)) s hits)"
    if "queues_ok resultsNeeded s" for s
    using that by (induction hits arbitrary: s) (simp_all add: AddResultFromTrie_ok)
  then show ?thesis
    using Search_Initialize_ok AddResultFromTrie_ok SearchFeatures_ok Search_ok by blast
qed

theorem queues_hold_a_feature_once_witness:
  "queues_ok 10 (Search_Initialize example_env ''caf'' 10 example_query)
   \<and> queues_ok 10
       (AddResultFromTrie (Search_Initialize example_env ''caf'' 10 example_query)
          \<lparr>m_featureId = 5, m_rank = 3, m_pt = (0, 0)\<rparr> 0)
   \<and> map (\<lambda>qu. map GetID (m_queue qu))
        (m_results
           (AddResultFromTrie
              (AddResultFromTrie (Search_Initialize example_env ''caf'' 10 example_query)
                 \<lparr>m_featureId = 5, m_rank = 3, m_pt = (0, 0)\<rparr> 0)
              \<lparr>m_featureId = 5, m_rank = 3, m_pt = (0, 0)\<rparr> 0))
      = [[(5, 0)], [(5, 0)], [(5, 0)]]"
proof -
  have "map (\<lambda>qu. map GetID (m_queue qu))
        (m_results
           (AddResultFromTrie
              (AddResultFromTrie (Search_Initialize example_env ''caf'' 10 example_query)
                 \<lparr>m_featureId = 5, m_rank = 3, m_pt = (0, 0)\<rparr> 0)
              \<lparr>m_featureId = 5, m_rank = 3, m_pt = (0, 0)\<rparr> 0))
      = [[(5, 0)], [(5, 0)], [(5, 0)]]"
    by code_simp
  then show ?thesis
    using queues_hold_a_feature_once [of 10 example_env "''caf''" example_query
        "Search_Initialize example_env ''caf'' 10 example_query"
        "\<lparr>m_featureId = 5, m_rank = 3, m_pt = (0, 0)\<rparr>" 0 "[]" "[]"]
    by simp
qed

subsection \<open>The order of the results\<close>

lemma strict_weak_on_subset: "strict_weak_on S cmp \<Longrightarrow> T \<subseteq> S \<Longrightarrow> strict_weak_on T cmp"
  unfolding strict_weak_on_def by (meson subsetD)

lemma strict_weak_on_irrefl: "strict_weak_on S cmp \<Longrightarrow> a \<in> S \<Longrightarrow> \<not> cmp a a"
  unfolding strict_weak_on_def by blast

lemma strict_weak_on_trans:
  "strict_weak_on S cmp \<Longrightarrow> a \<in> S \<Longrightarrow> b \<in> S \<Longrightarrow> c \<in> S \<Longrightarrow> cmp a b \<Longrightarrow> cmp b c \<Longrightarrow> cmp a c"
  unfolding strict_weak_on_def by blast

lemma strict_weak_on_negtrans:
  "strict_weak_on S cmp \<Longrightarrow> a \<in> S \<Longrightarrow> b \<in> S \<Longrightarrow> c \<in> S
   \<Longrightarrow> \<not> cmp a b \<Longrightarrow> \<not> cmp b c \<Longrightarrow> \<not> cmp a c"
  unfolding strict_weak_on_def by blast

lemma mset_insert_sorted: "mset (insert_sorted cmp x ys) = add_mset x (mset ys)"
  by (induction ys) simp_all

lemma set_insert_sorted: "set (insert_sorted cmp x ys) = insert x (set ys)"
  by (induction ys) auto

lemma sorted_insert_sorted:
  assumes "strict_weak_on S cmp" "x \<in> S" "set ys \<subseteq> S"
    "sorted_wrt (\<lambda>a b. \<not> cmp b a) ys"
  shows "sorted_wrt (\<lambda>a b. \<not> cmp b a) (insert_sorted cmp x ys)"
  using assms(3,4)
proof (induction ys)
  case Nil
  show ?case by simp
next
  case (Cons y ys)
  show ?case
  proof (cases "cmp x y")
    case True
    have "\<not> cmp z x" if "z \<in> set (y # ys)" for z
    proof
      assume zx: "cmp z x"
      have zS: "z \<in> S" and yS: "y \<in> S" using that Cons.prems(1) by auto
      have "cmp z y" using strict_weak_on_trans [OF assms(1) zS assms(2) yS zx True] .
      moreover have "\<not> cmp z y"
        using that Cons.prems(2) strict_weak_on_irrefl [OF assms(1) yS] by auto
      ultimately show False by simp
    qed
    then show ?thesis using True Cons.prems(2) by auto
  next
    case False
    then show ?thesis
      using Cons by (auto simp add: set_insert_sorted)
  qed
qed

lemma insertion_sort_mset: "mset (insertion_sort cmp xs) = mset xs"
  unfolding insertion_sort_def by (induction xs) (simp_all add: mset_insert_sorted)

lemma insertion_sort_sorted:
  "strict_weak_on S cmp \<Longrightarrow> set xs \<subseteq> S
   \<Longrightarrow> sorted_wrt (\<lambda>a b. \<not> cmp b a) (insertion_sort cmp xs)"
proof (induction xs)
  case Nil
  show ?case by (simp add: insertion_sort_def)
next
  case (Cons x xs)
  have s: "set (insertion_sort cmp xs) \<subseteq> S"
    using Cons.prems(2) insertion_sort_mset [of cmp xs] by (metis set_mset_mset set_subset_Cons subset_trans)
  have "sorted_wrt (\<lambda>a b. \<not> cmp b a) (insert_sorted cmp x (insertion_sort cmp xs))"
    using sorted_insert_sorted [OF Cons.prems(1) _ s] Cons by simp
  then show ?case by (simp add: insertion_sort_def)
qed

lemma insertion_sort_contract: "sort_contract insertion_sort"
  unfolding sort_contract_def
  using insertion_sort_mset insertion_sort_sorted by (metis order_refl)

lemma less_ind_irrefl: "\<not> less_ind xs xs"
  by (induction xs) simp_all

lemma less_ind_trans:
  "length xs = length ys \<Longrightarrow> length ys = length zs
   \<Longrightarrow> less_ind xs ys \<Longrightarrow> less_ind ys zs \<Longrightarrow> less_ind xs zs"
  by (induction xs ys zs rule: list_induct3) (auto split: if_splits)

lemma less_ind_total:
  "length xs = length ys \<Longrightarrow> less_ind xs ys \<or> xs = ys \<or> less_ind ys xs"
  by (induction xs ys rule: list_induct2) auto

lemma less_ind_strict_weak: "strict_weak_on {xs. length xs = n} less_ind"
  unfolding strict_weak_on_def
  using less_ind_irrefl less_ind_trans less_ind_total
  by (smt (verit, best) mem_Collect_eq)

lemma sort3_dominated:
  fixes a b c d e f :: nat
  assumes "a \<le> d" "b \<le> e" "c \<le> f" "a + b + c < d + e + f"
  shows "less_ind (sort [a, b, c]) (sort [d, e, f])"
  using assms by (auto simp add: insort_key.simps)

lemma SetIndex_simps:
  "m_val (SetIndex i v x) = m_val x"
  "length (m_ind (SetIndex i v x)) = length (m_ind x)"
  "i < length (m_ind x) \<Longrightarrow> m_ind (SetIndex i v x) ! i = v"
  "j \<noteq> i \<Longrightarrow> m_ind (SetIndex i v x) ! j = m_ind x ! j"
  by (simp_all add: SetIndex_def)

lemma assign_ranks_shape:
  "list_all2 (\<lambda>y x. \<exists>k. y = SetIndex i k x) (assign_ranks cmp i r p xs) xs"
  by (induction xs arbitrary: r p) (auto simp add: Let_def)

lemma assign_ranks_ranked:
  assumes "strict_weak_on S cmp"
  shows "m_val p \<in> S \<Longrightarrow> m_val ` set xs \<subseteq> S
    \<Longrightarrow> sorted_wrt (\<lambda>a b. \<not> cmp b a) (m_val p # map m_val xs)
    \<Longrightarrow> \<forall>x \<in> set xs. i < length (m_ind x)
    \<Longrightarrow> (\<forall>y \<in> set (assign_ranks cmp i r p xs).
           (cmp (m_val p) (m_val y) \<longrightarrow> r < m_ind y ! i)
           \<and> (\<not> cmp (m_val p) (m_val y) \<longrightarrow> m_ind y ! i = r))
        \<and> ranked_on cmp i (set (assign_ranks cmp i r p xs))"
proof (induction xs arbitrary: r p)
  case Nil
  show ?case by (simp add: ranked_on_def)
next
  case (Cons x xs)
  let ?r = "if cmp (m_val p) (m_val x) then r + 1 else r"
  let ?x = "SetIndex i ?r x"
  let ?ys = "assign_ranks cmp i ?r ?x xs"
  have xS: "m_val x \<in> S" and xsS: "m_val ` set xs \<subseteq> S" using Cons.prems(2) by auto
  have pS: "m_val p \<in> S" by (rule Cons.prems(1))
  have sorted_tl: "sorted_wrt (\<lambda>a b. \<not> cmp b a) (m_val ?x # map m_val xs)"
    using Cons.prems(3) by (simp add: SetIndex_simps)
  have ih: "(\<forall>y \<in> set ?ys.
           (cmp (m_val x) (m_val y) \<longrightarrow> ?r < m_ind y ! i)
           \<and> (\<not> cmp (m_val x) (m_val y) \<longrightarrow> m_ind y ! i = ?r))
        \<and> ranked_on cmp i (set ?ys)"
    using Cons.IH [of ?x ?r] xS xsS sorted_tl Cons.prems(4) by (simp add: SetIndex_simps)
  have ix: "m_ind ?x ! i = ?r" using Cons.prems(4) by (simp add: SetIndex_simps)
  have vx: "m_val ?x = m_val x" by (simp add: SetIndex_simps)
  have npx: "\<not> cmp (m_val x) (m_val p)" using Cons.prems(3) by simp
  have ysvals: "m_val ` set ?ys \<subseteq> m_val ` set xs"
  proof -
    have "list_all2 (\<lambda>y x. \<exists>k. y = SetIndex i k x) ?ys xs" by (rule assign_ranks_shape)
    then have "list_all2 (\<lambda>y x. m_val y = m_val x) ?ys xs"
      by (rule list_all2_mono) (auto simp add: SetIndex_simps)
    then have "map m_val ?ys = map m_val xs"
      by (induction rule: list_all2_induct) simp_all
    then show ?thesis by (metis order_refl set_map)
  qed
  have after: "\<not> cmp (m_val y) (m_val x) \<and> \<not> cmp (m_val y) (m_val p) \<and> m_val y \<in> S"
    if "y \<in> set ?ys" for y
    using that ysvals Cons.prems(3) xsS by auto
  have head: "(cmp (m_val p) (m_val ?x) \<longrightarrow> r < m_ind ?x ! i)
           \<and> (\<not> cmp (m_val p) (m_val ?x) \<longrightarrow> m_ind ?x ! i = r)"
    using Cons.prems(4) by (simp add: SetIndex_simps)
  have tail: "(cmp (m_val p) (m_val y) \<longrightarrow> r < m_ind y ! i)
           \<and> (\<not> cmp (m_val p) (m_val y) \<longrightarrow> m_ind y ! i = r)"
    if y: "y \<in> set ?ys" for y
  proof -
    have yS: "m_val y \<in> S" and nyx: "\<not> cmp (m_val y) (m_val x)"
      using after [OF y] by simp_all
    have iy: "(cmp (m_val x) (m_val y) \<longrightarrow> ?r < m_ind y ! i)
           \<and> (\<not> cmp (m_val x) (m_val y) \<longrightarrow> m_ind y ! i = ?r)"
      using ih y by blast
    show ?thesis
    proof (cases "cmp (m_val p) (m_val y)")
      case True
      have "cmp (m_val p) (m_val x) \<or> cmp (m_val x) (m_val y)"
        using strict_weak_on_negtrans [OF assms pS xS yS] True by blast
      then show ?thesis using True iy by (auto split: if_splits)
    next
      case False
      have 1: "\<not> cmp (m_val p) (m_val x)"
        using strict_weak_on_negtrans [OF assms pS yS xS False nyx] .
      have 2: "\<not> cmp (m_val x) (m_val y)"
        using strict_weak_on_negtrans [OF assms xS pS yS npx False] .
      show ?thesis using False 1 2 iy by simp
    qed
  qed
  have rk: "ranked_on cmp i (set (?x # ?ys))"
    unfolding ranked_on_def
  proof (intro ballI)
    fix a b assume a: "a \<in> set (?x # ?ys)" and b: "b \<in> set (?x # ?ys)"
    consider "a = ?x" "b = ?x" | "a = ?x" "b \<in> set ?ys" | "a \<in> set ?ys" "b = ?x"
      | "a \<in> set ?ys" "b \<in> set ?ys"
      using a b by auto
    then show "(\<not> cmp (m_val b) (m_val a) \<longrightarrow> m_ind a ! i \<le> m_ind b ! i)
        \<and> (cmp (m_val a) (m_val b) \<longrightarrow> m_ind a ! i < m_ind b ! i)"
    proof cases
      case 1
      then show ?thesis using strict_weak_on_irrefl [OF assms xS] vx by simp
    next
      case 2
      have "(cmp (m_val x) (m_val b) \<longrightarrow> ?r < m_ind b ! i)
           \<and> (\<not> cmp (m_val x) (m_val b) \<longrightarrow> m_ind b ! i = ?r)"
        using ih 2(2) by blast
      then show ?thesis using 2(1) ix vx by (cases "cmp (m_val x) (m_val b)") simp_all
    next
      case 3
      have "(cmp (m_val x) (m_val a) \<longrightarrow> ?r < m_ind a ! i)
           \<and> (\<not> cmp (m_val x) (m_val a) \<longrightarrow> m_ind a ! i = ?r)"
        using ih 3(1) by blast
      then show ?thesis using 3(2) ix vx after [OF 3(1)] by simp
    next
      case 4
      then show ?thesis using ih unfolding ranked_on_def by blast
    qed
  qed
  show ?case
    using head tail rk by (simp add: Let_def)
qed

lemma list_all2_set1: "list_all2 P ys xs \<Longrightarrow> y \<in> set ys \<Longrightarrow> \<exists>x \<in> set xs. P y x"
  by (induction rule: list_all2_induct) auto

lemma assign_ranks_from0_eq:
  "\<not> cmp (m_val x) (m_val x)
   \<Longrightarrow> assign_ranks_from0 cmp i (x # xs) = assign_ranks cmp i 0 x (x # xs)"
  by (simp add: Let_def)

lemma assign_ranks_from0_shape:
  "list_all2 (\<lambda>y x. \<exists>k. y = SetIndex i k x) (assign_ranks_from0 cmp i xs) xs"
  by (cases xs) (auto simp add: Let_def assign_ranks_shape)

lemma assign_ranks_from0_ranked:
  assumes "strict_weak_on S cmp" "m_val ` set zs \<subseteq> S"
    "sorted_wrt (\<lambda>a b. \<not> cmp b a) (map m_val zs)" "\<forall>z \<in> set zs. i < length (m_ind z)"
  shows "ranked_on cmp i (set (assign_ranks_from0 cmp i zs))"
proof (cases zs)
  case Nil
  then show ?thesis by (simp add: ranked_on_def)
next
  case (Cons x xs)
  have xS: "m_val x \<in> S" using assms(2) Cons by simp
  have irr: "\<not> cmp (m_val x) (m_val x)" by (rule strict_weak_on_irrefl [OF assms(1) xS])
  have "ranked_on cmp i (set (assign_ranks cmp i 0 x (x # xs)))"
    using assign_ranks_ranked [OF assms(1) xS, of "x # xs" i 0] assms(2,3,4) irr Cons
    by simp
  then show ?thesis
    unfolding Cons using assign_ranks_from0_eq [of cmp x i xs] irr by simp
qed

lemma ranked_on_other_index:
  assumes "ranked_on cmp j (set zs)" "j \<noteq> i"
    "list_all2 (\<lambda>y x. \<exists>k. y = SetIndex i k x) ys zs"
  shows "ranked_on cmp j (set ys)"
  unfolding ranked_on_def
proof (intro ballI)
  fix a b assume "a \<in> set ys" "b \<in> set ys"
  then obtain a' b' ka kb where ab: "a' \<in> set zs" "b' \<in> set zs"
    "a = SetIndex i ka a'" "b = SetIndex i kb b'"
    using list_all2_set1 [OF assms(3)] by blast
  have "(\<not> cmp (m_val b') (m_val a') \<longrightarrow> m_ind a' ! j \<le> m_ind b' ! j)
        \<and> (cmp (m_val a') (m_val b') \<longrightarrow> m_ind a' ! j < m_ind b' ! j)"
    using assms(1) ab(1,2) unfolding ranked_on_def by blast
  then show "(\<not> cmp (m_val b) (m_val a) \<longrightarrow> m_ind a ! j \<le> m_ind b ! j)
        \<and> (cmp (m_val a) (m_val b) \<longrightarrow> m_ind a ! j < m_ind b ! j)"
    using ab(3,4) assms(2) by (simp add: SetIndex_simps)
qed

lemma strict_weak_on_vimage:
  "strict_weak_on (f ` S) cmp \<Longrightarrow> strict_weak_on S (\<lambda>a b. cmp (f a) (f b))"
  unfolding strict_weak_on_def by (intro conjI ballI impI; blast)

lemma rank_by_criterion_inv:
  assumes srt: "sort_contract (std_sort e)"
    and swo: "strict_weak_on C (g_arrCompare2 e k)"
    and k: "k < m_qCount"
    and inv: "rank_inv e C k W"
  shows "rank_inv e C (Suc k) (rank_by_criterion e W k)"
proof -
  let ?cmp = "\<lambda>a b. g_arrCompare2 e k (m_val a) (m_val b)"
  let ?Z = "std_sort e ?cmp W"
  let ?W = "assign_ranks_from0 (g_arrCompare2 e k) k ?Z"
  have vals: "m_val ` set W = C" and len: "\<forall>x \<in> set W. length (m_ind x) = m_qCount"
    and old: "\<forall>i < k. ranked_on (g_arrCompare2 e i) i (set W)"
    using inv unfolding rank_inv_def by simp_all
  have swoW: "strict_weak_on (set W) ?cmp"
    using strict_weak_on_vimage [of m_val "set W" "g_arrCompare2 e k"] swo vals by simp
  have Z: "mset ?Z = mset W \<and> sorted_wrt (\<lambda>a b. \<not> ?cmp b a) ?Z"
    using srt [unfolded sort_contract_def, rule_format, OF swoW] .
  have setZ: "set ?Z = set W" using Z mset_eq_setD by blast
  have sortedZ: "sorted_wrt (\<lambda>a b. \<not> g_arrCompare2 e k b a) (map m_val ?Z)"
    using Z by (simp add: sorted_wrt_map)
  have shape: "list_all2 (\<lambda>y x. \<exists>j. y = SetIndex k j x) ?W ?Z"
    by (rule assign_ranks_from0_shape)
  have new: "ranked_on (g_arrCompare2 e k) k (set ?W)"
    using assign_ranks_from0_ranked [OF swo _ sortedZ, of k] setZ vals len k by simp
  have same_vals: "map m_val ?W = map m_val ?Z"
  proof -
    have "list_all2 (\<lambda>y x. m_val y = m_val x) ?W ?Z"
      using shape by (rule list_all2_mono) (auto simp add: SetIndex_simps)
    then show ?thesis by (induction rule: list_all2_induct) simp_all
  qed
  have "set (map m_val ?W) = set (map m_val ?Z)" using same_vals by simp
  then have v: "m_val ` set ?W = C"
    using setZ vals by simp
  have l: "\<forall>x \<in> set ?W. length (m_ind x) = m_qCount"
  proof
    fix x assume "x \<in> set ?W"
    then obtain z j where "z \<in> set ?Z" "x = SetIndex k j z"
      using list_all2_set1 [OF shape] by blast
    then show "length (m_ind x) = m_qCount" using len setZ by (simp add: SetIndex_simps)
  qed
  have r: "ranked_on (g_arrCompare2 e i) i (set ?W)" if "i < Suc k" for i
  proof (cases "i = k")
    case True
    then show ?thesis using new by simp
  next
    case False
    then have "i < k" using that by simp
    then have "ranked_on (g_arrCompare2 e i) i (set ?Z)" using old setZ by simp
    then show ?thesis using ranked_on_other_index [OF _ False shape] by blast
  qed
  show ?thesis
    unfolding rank_inv_def rank_by_criterion_def Let_def using v l r by blast
qed

lemma rank_passes_inv:
  assumes srt: "sort_contract (std_sort e)"
    and swo: "\<forall>i < m_qCount. strict_weak_on C (g_arrCompare2 e i)"
    and inv: "rank_inv e C 0 W"
  shows "k \<le> m_qCount \<Longrightarrow> rank_inv e C k (foldl (rank_by_criterion e) W [0..<k])"
proof (induction k)
  case 0
  then show ?case using inv by simp
next
  case (Suc k)
  then show ?case
    using rank_by_criterion_inv [OF srt _ _ Suc.IH] swo by simp
qed

lemma rank_inv_initial: "rank_inv e (set cands) 0 (map IndexedValue_ctor cands)"
  by (auto simp add: rank_inv_def IndexedValue_ctor_def image_image)

lemma emit_results_prefix: "\<exists>n. snd (emit_results e q xs) = take n (map m_val xs)"
proof (induction xs arbitrary: q)
  case Nil
  show ?case by simp
next
  case (Cons x xs)
  obtain c q1 where rc: "read_cancel e q = (c, q1)" by (cases "read_cancel e q")
  show ?case
  proof (cases c)
    case True
    then show ?thesis using rc by (auto intro: exI [of _ 0])
  next
    case False
    obtain n where "snd (emit_results e q1 xs) = take n (map m_val xs)"
      using Cons.IH by blast
    then show ?thesis using rc False by (auto intro!: exI [of _ "Suc n"] split: prod.splits)
  qed
qed

lemma emit_results_all:
  "\<forall>n. \<not> cancelRequested e n \<Longrightarrow> \<not> m_cancel q \<Longrightarrow> snd (emit_results e q xs) = map m_val xs"
proof (induction xs arbitrary: q)
  case Nil
  show ?case by simp
next
  case (Cons x xs)
  have rc: "read_cancel e q = (False, q\<lparr>m_cancel := False, polls := polls q + 1\<rparr>)"
    using Cons.prems by (simp add: read_cancel_def Let_def)
  show ?case using rc Cons.IH [of "q\<lparr>m_cancel := False, polls := polls q + 1\<rparr>"] Cons.prems
    by (auto split: prod.splits)
qed

lemma length3_cases: "length xs = 3 \<Longrightarrow> \<exists>a b c. xs = [a, b, c]"
  by (cases xs; cases "tl xs"; cases "tl (tl xs)") auto

lemma dominated_indices_less:
  assumes "length xs = m_qCount" "length ys = m_qCount"
    "\<forall>i < m_qCount. xs ! i \<le> ys ! i" "\<exists>i < m_qCount. xs ! i < ys ! i"
  shows "less_ind (sort xs) (sort ys)"
proof -
  have "length xs = 3" "length ys = 3" using assms(1,2) by (simp_all add: m_qCount_def)
  then obtain a b c d f g where xs: "xs = [a, b, c]" and ys: "ys = [d, f, g]"
    using length3_cases by blast
  have "xs ! 0 \<le> ys ! 0" "xs ! 1 \<le> ys ! 1" "xs ! 2 \<le> ys ! 2"
    using assms(3) by (simp_all add: m_qCount_def)
  then have le: "a \<le> d" "b \<le> f" "c \<le> g" by (simp_all add: xs ys)
  obtain i where i: "i < 3" "xs ! i < ys ! i" using assms(4) by (auto simp add: m_qCount_def)
  have "i = 0 \<or> i = 1 \<or> i = 2" using i(1) by linarith
  then have "a < d \<or> b < f \<or> c < g" using i(2) by (auto simp add: xs ys)
  then have "a + b + c < d + f + g" using le by linarith
  then show ?thesis unfolding xs ys using le sort3_dominated by blast
qed

lemma SortIndex_simps:
  "m_val (SortIndex x) = m_val x" "m_ind (SortIndex x) = sort (m_ind x)"
  by (simp_all add: SortIndex_def)

lemma IndexedValue_less_strict_weak:
  assumes "\<forall>x \<in> S. length (m_ind x) = n"
  shows "strict_weak_on S IndexedValue_less"
proof -
  have "m_ind ` S \<subseteq> {xs. length xs = n}" using assms by auto
  then have "strict_weak_on (m_ind ` S) less_ind"
    using strict_weak_on_subset [OF less_ind_strict_weak] by blast
  then have "strict_weak_on S (\<lambda>a b. less_ind (m_ind a) (m_ind b))"
    by (rule strict_weak_on_vimage [of m_ind S less_ind])
  then show ?thesis unfolding strict_weak_on_def IndexedValue_less_def .
qed

lemma rank_by_criterion_mset:
  assumes srt: "sort_contract (std_sort e)"
    and swo: "strict_weak_on C (g_arrCompare2 e k)"
    and inv: "rank_inv e C k W"
  shows "mset (map m_val (rank_by_criterion e W k)) = mset (map m_val W)"
proof -
  let ?cmp = "\<lambda>a b. g_arrCompare2 e k (m_val a) (m_val b)"
  let ?Z = "std_sort e ?cmp W"
  let ?W = "assign_ranks_from0 (g_arrCompare2 e k) k ?Z"
  have vals: "m_val ` set W = C" using inv unfolding rank_inv_def by simp
  have swoW: "strict_weak_on (set W) ?cmp"
    using strict_weak_on_vimage [of m_val "set W" "g_arrCompare2 e k"] swo vals by simp
  have Z: "mset ?Z = mset W"
    using srt [unfolded sort_contract_def, rule_format, OF swoW] by simp
  have "list_all2 (\<lambda>y x. m_val y = m_val x) ?W ?Z"
    using assign_ranks_from0_shape [of k "g_arrCompare2 e k" ?Z]
    by (rule list_all2_mono) (auto simp add: SetIndex_simps)
  then have "map m_val ?W = map m_val ?Z"
    by (induction rule: list_all2_induct) simp_all
  moreover have "mset (map m_val ?Z) = mset (map m_val W)"
    using Z by (metis mset_map)
  ultimately show ?thesis by (simp add: rank_by_criterion_def Let_def)
qed

lemma rank_passes_mset:
  assumes srt: "sort_contract (std_sort e)"
    and swo: "\<forall>i < m_qCount. strict_weak_on C (g_arrCompare2 e i)"
    and inv: "rank_inv e C 0 W"
  shows "k \<le> m_qCount
    \<Longrightarrow> mset (map m_val (foldl (rank_by_criterion e) W [0..<k])) = mset (map m_val W)"
proof (induction k)
  case 0
  show ?case by simp
next
  case (Suc k)
  have "rank_inv e C k (foldl (rank_by_criterion e) W [0..<k])"
    using rank_passes_inv [OF srt swo inv, of k] Suc.prems by simp
  then show ?case
    using rank_by_criterion_mset [OF srt _ _, of C k "foldl (rank_by_criterion e) W [0..<k]"]
      swo Suc by simp
qed

lemma FlushResults_ranked_all:
  assumes srt: "sort_contract (std_sort e)"
    and swo: "\<forall>i < m_qCount. strict_weak_on (set cands) (g_arrCompare2 e i)"
    and nc: "\<not> m_cancel q" "\<forall>n. \<not> cancelRequested e n"
  shows "mset (snd (FlushResults_ranked e q (map IndexedValue_ctor cands))) = mset cands"
proof -
  let ?W = "foldl (rank_by_criterion e) (map IndexedValue_ctor cands) [0..<m_qCount]"
  let ?V = "map SortIndex ?W"
  let ?F = "std_sort e IndexedValue_less ?V"
  have inv: "rank_inv e (set cands) m_qCount ?W"
    using rank_passes_inv [OF srt swo rank_inv_initial, of m_qCount] by simp
  have lenV: "\<forall>x \<in> set ?V. length (m_ind x) = m_qCount"
    using inv by (auto simp add: rank_inv_def SortIndex_simps)
  have F: "mset ?F = mset ?V"
    using srt [unfolded sort_contract_def, rule_format,
        OF IndexedValue_less_strict_weak [OF lenV]] by simp
  have "mset (map m_val ?F) = mset (map m_val ?V)" using F by (metis mset_map)
  also have "\<dots> = mset (map m_val ?W)" by (simp add: SortIndex_simps comp_def)
  also have "\<dots> = mset (map m_val (map IndexedValue_ctor cands))"
    using rank_passes_mset [OF srt swo rank_inv_initial, of m_qCount] by simp
  also have "\<dots> = mset cands" by (simp add: IndexedValue_ctor_def comp_def)
  finally show ?thesis
    using emit_results_all [OF nc(2) nc(1), of ?F]
    by (simp add: FlushResults_ranked_def Let_def)
qed

text \<open>
  C1. Let \<open>std::sort\<close> meet its contract and let each of the three comparators be a
  strict weak ordering on the promoted results \<open>cands\<close> left by the removal of
  duplicating linear objects. If \<open>A\<close> and \<open>B\<close> are among them, \<open>A\<close> is not worse
  than \<open>B\<close> under any criterion and strictly better under at least one, then in the
  sequence of results emitted by the second half of \<open>FlushResults\<close> every occurrence
  of \<open>A\<close> comes before every occurrence of \<open>B\<close>. A cancel flag set during the
  emission cuts the sequence short; without it the sequence is a permutation of
  \<open>cands\<close>, so that both are emitted.
\<close>

theorem ranker_monotonicity:
  assumes srt: "sort_contract (std_sort e)"
    and swo: "\<forall>i < m_qCount. strict_weak_on (set cands) (g_arrCompare2 e i)"
    and A: "A \<in> set cands" and B: "B \<in> set cands"
    and no_worse: "\<forall>i < m_qCount. \<not> g_arrCompare2 e i B A"
    and better: "\<exists>i < m_qCount. g_arrCompare2 e i A B"
    and out: "out = snd (FlushResults_ranked e q (map IndexedValue_ctor cands))"
  shows "(\<forall>i j. i < length out \<and> j < length out \<and> out ! i = A \<and> out ! j = B \<longrightarrow> i < j)
         \<and> (\<not> m_cancel q \<and> (\<forall>n. \<not> cancelRequested e n) \<longrightarrow> mset out = mset cands)"
proof -
  let ?W = "foldl (rank_by_criterion e) (map IndexedValue_ctor cands) [0..<m_qCount]"
  let ?V = "map SortIndex ?W"
  let ?F = "std_sort e IndexedValue_less ?V"
  have inv: "rank_inv e (set cands) m_qCount ?W"
    using rank_passes_inv [OF srt swo rank_inv_initial, of m_qCount] by simp
  have lenV: "\<forall>x \<in> set ?V. length (m_ind x) = m_qCount"
    using inv by (auto simp add: rank_inv_def SortIndex_simps)
  have F: "mset ?F = mset ?V \<and> sorted_wrt (\<lambda>a b. \<not> IndexedValue_less b a) ?F"
    using srt [unfolded sort_contract_def, rule_format,
        OF IndexedValue_less_strict_weak [OF lenV]] .
  have setF: "set ?F = set ?V" using F mset_eq_setD by blast
  obtain n where n: "out = take n (map m_val ?F)"
    using emit_results_prefix [of e q ?F] out by (auto simp add: FlushResults_ranked_def Let_def)
  have ranked: "ranked_on (g_arrCompare2 e k) k (set ?W)" if "k < m_qCount" for k
    using inv that by (simp add: rank_inv_def)
  have before: "i < j"
    if i: "i < length out" "out ! i = A" and j: "j < length out" "out ! j = B" for i j
  proof -
    have iF: "i < length ?F" "m_val (?F ! i) = A" and jF: "j < length ?F" "m_val (?F ! j) = B"
      using i j n by simp_all
    obtain a where a: "a \<in> set ?W" "?F ! i = SortIndex a"
      using iF(1) setF nth_mem [of i ?F] by auto
    obtain b where b: "b \<in> set ?W" "?F ! j = SortIndex b"
      using jF(1) setF nth_mem [of j ?F] by auto
    have va: "m_val a = A" and vb: "m_val b = B"
      using a b iF jF by (simp_all add: SortIndex_simps)
    have le: "\<forall>k < m_qCount. m_ind a ! k \<le> m_ind b ! k"
      using ranked a(1) b(1) no_worse va vb unfolding ranked_on_def by blast
    have lt: "\<exists>k < m_qCount. m_ind a ! k < m_ind b ! k"
      using ranked a(1) b(1) better va vb unfolding ranked_on_def by blast
    have len: "length (m_ind a) = m_qCount" "length (m_ind b) = m_qCount"
      using inv a(1) b(1) by (simp_all add: rank_inv_def)
    have less: "IndexedValue_less (?F ! i) (?F ! j)"
      using dominated_indices_less [OF len le lt] a(2) b(2)
      by (simp add: IndexedValue_less_def SortIndex_simps)
    show ?thesis
    proof (rule ccontr)
      assume "\<not> i < j"
      then consider "i = j" | "j < i" by linarith
      then show False
      proof cases
        case 1
        then show ?thesis using less by (simp add: IndexedValue_less_def less_ind_irrefl)
      next
        case 2
        then have "\<not> IndexedValue_less (?F ! i) (?F ! j)"
          using F iF(1) sorted_wrt_nth_less [of "\<lambda>a b. \<not> IndexedValue_less b a" ?F j i] by simp
        then show ?thesis using less by simp
      qed
    qed
  qed
  have "mset out = mset cands" if "\<not> m_cancel q" "\<forall>n. \<not> cancelRequested e n"
    unfolding out by (rule FlushResults_ranked_all [OF srt swo that])
  then show ?thesis using before by blast
qed

theorem ranker_monotonicity_witness:
  "snd (FlushResults_ranked example_env example_query
          (map IndexedValue_ctor [example_B, example_A])) = [example_A, example_B]
   \<and> (0 :: nat) < 1"
proof -
  let ?out = "snd (FlushResults_ranked example_env example_query
          (map IndexedValue_ctor [example_B, example_A]))"
  have out: "?out = [example_A, example_B]" by code_simp
  have h1: "sort_contract (std_sort example_env)"
    by (simp add: example_env_def insertion_sort_contract)
  have h2: "\<forall>i < m_qCount. strict_weak_on (set [example_B, example_A]) (g_arrCompare2 example_env i)"
    by (simp add: strict_weak_on_def example_env_def example_A_def example_B_def)
  have h3: "example_A \<in> set [example_B, example_A]" "example_B \<in> set [example_B, example_A]"
    by simp_all
  have h4: "\<forall>i < m_qCount. \<not> g_arrCompare2 example_env i example_B example_A"
    by (simp add: example_env_def example_A_def example_B_def)
  have h5: "\<exists>i < m_qCount. g_arrCompare2 example_env i example_A example_B"
    by (rule exI [of _ 0]) (simp add: example_env_def example_A_def example_B_def m_qCount_def)
  have "0 < length ?out \<and> 1 < length ?out \<and> ?out ! 0 = example_A \<and> ?out ! 1 = example_B
        \<longrightarrow> (0 :: nat) < 1"
    using ranker_monotonicity [OF h1 h2 h3 h4 h5 refl, where q = example_query] by blast
  then show ?thesis using out by simp
qed

end
